theory Spec2Isabelle
  imports Complex_Main "HOL-Library.Word" "HOL-Library.Monad_Syntax"
begin

text \<open>
  The legislative-text extraction heuristic of the PLS Command Center: the function
  \<open>extractFallback\<close> of \<open>app/server.js\<close>, its client-side copy
  \<open>extractLegislationFallback\<close> of \<open>app/src/services/aiService.js\<close>, and the handler of
  \<open>POST /api/extract\<close> that falls back to it.  The JavaScript is embedded as HOL
  functions: strings as lists of code units, regular expressions by a backtracking
  matcher, the values of a request by a datatype, an exception as the result \<open>None\<close>.
\<close>

section \<open>JavaScript strings\<close>

text \<open>
  A JavaScript string is a sequence of 16-bit code units.  String literals of the
  source that are plain ASCII are written with \<open>js\<close>; the bullet U+2022 of the
  source is the code unit \<open>0x2022\<close>.
\<close>
type_synonym jschar = "16 word"

type_synonym jsstring = "jschar list"

definition js :: "string \<Rightarrow> jsstring" where
  "js s = map (\<lambda>c. of_nat (of_char c)) s"

definition ch :: "char \<Rightarrow> jschar" where
  "ch c = of_nat (of_char c)"

definition LF :: jschar where
  "LF = 0x0A"

definition BULLET :: jschar where
  "BULLET = 0x2022"

text \<open>White space and line terminators of ECMAScript: the set used by \<open>\s\<close> and by \<open>trim\<close>.\<close>
definition is_space :: "jschar \<Rightarrow> bool" where
  "is_space c \<longleftrightarrow>
     c = 0x09 \<or> c = 0x0A \<or> c = 0x0B \<or> c = 0x0C \<or> c = 0x0D \<or> c = 0x20 \<or> c = 0xA0
     \<or> c = 0x1680 \<or> (0x2000 \<le> c \<and> c \<le> 0x200A) \<or> c = 0x2028 \<or> c = 0x2029
     \<or> c = 0x202F \<or> c = 0x205F \<or> c = 0x3000 \<or> c = 0xFEFF"

definition is_digit :: "jschar \<Rightarrow> bool" where
  "is_digit c \<longleftrightarrow> 0x30 \<le> c \<and> c \<le> 0x39"

definition is_upper :: "jschar \<Rightarrow> bool" where
  "is_upper c \<longleftrightarrow> 0x41 \<le> c \<and> c \<le> 0x5A"

definition is_lower :: "jschar \<Rightarrow> bool" where
  "is_lower c \<longleftrightarrow> 0x61 \<le> c \<and> c \<le> 0x7A"

text \<open>The word characters of \<open>\b\<close>: ASCII letters, digits and the underscore.\<close>
definition is_word :: "jschar \<Rightarrow> bool" where
  "is_word c \<longleftrightarrow> is_upper c \<or> is_lower c \<or> is_digit c \<or> c = 0x5F"

definition is_ascii :: "jschar \<Rightarrow> bool" where
  "is_ascii c \<longleftrightarrow> c < 0x80"

definition ascii_upper :: "jschar \<Rightarrow> jschar" where
  "ascii_upper c = (if is_lower c then c - 0x20 else c)"

definition ascii_lower :: "jschar \<Rightarrow> jschar" where
  "ascii_lower c = (if is_upper c then c + 0x20 else c)"

text \<open>
  \<open>toUpperCase\<close> and \<open>toLowerCase\<close> follow the Unicode case tables of the host, which
  are not part of the repository.  On a string of ASCII code units they are the ASCII
  mappings; on any other string the host's tables decide, and they are a parameter.
\<close>
record casing =
  upper_table :: "jsstring \<Rightarrow> jsstring"
  lower_table :: "jsstring \<Rightarrow> jsstring"

definition toUpperCase :: "casing \<Rightarrow> jsstring \<Rightarrow> jsstring" where
  "toUpperCase T s = (if list_all is_ascii s then map ascii_upper s else upper_table T s)"

definition toLowerCase :: "casing \<Rightarrow> jsstring \<Rightarrow> jsstring" where
  "toLowerCase T s = (if list_all is_ascii s then map ascii_lower s else lower_table T s)"

definition trim :: "jsstring \<Rightarrow> jsstring" where
  "trim s = rev (dropWhile is_space (rev (dropWhile is_space s)))"

definition substring0 :: "nat \<Rightarrow> jsstring \<Rightarrow> jsstring" where
  \<comment> \<open>\<open>s.substring(0, n)\<close>\<close>
  "substring0 n s = take n s"

definition charAt0 :: "jsstring \<Rightarrow> jsstring" where
  \<comment> \<open>\<open>s.charAt(0)\<close>: the empty string when \<open>s\<close> is empty\<close>
  "charAt0 s = take 1 s"

definition slice1 :: "jsstring \<Rightarrow> jsstring" where
  \<comment> \<open>\<open>s.slice(1)\<close>\<close>
  "slice1 s = drop 1 s"

text \<open>\<open>s.split(' ')\<close> with a one-character separator: never an empty array.\<close>
fun split_chr :: "jschar \<Rightarrow> jsstring \<Rightarrow> jsstring list" where
  "split_chr d [] = [[]]"
| "split_chr d (c # cs) =
     (if c = d then [] # split_chr d cs
      else (case split_chr d cs of [] \<Rightarrow> [[c]] | w # ws \<Rightarrow> (c # w) # ws))"

fun join :: "jsstring \<Rightarrow> jsstring list \<Rightarrow> jsstring" where
  "join sep [] = []"
| "join sep [w] = w"
| "join sep (w # ws) = w @ sep @ join sep ws"

text \<open>\<open>a || b\<close> on strings: the empty string is the only falsy string.\<close>
definition or_else :: "jsstring \<Rightarrow> jsstring \<Rightarrow> jsstring" where
  "or_else a b = (if a = [] then b else a)"

text \<open>\<open>[...new Set(xs)]\<close>: the elements in order of first insertion, compared exactly.\<close>
fun set_insert :: "'a list \<Rightarrow> 'a list \<Rightarrow> 'a list" where
  "set_insert seen [] = seen"
| "set_insert seen (x # xs) = set_insert (if x \<in> set seen then seen else seen @ [x]) xs"

definition new_Set :: "'a list \<Rightarrow> 'a list" where
  "new_Set xs = set_insert [] xs"

definition at0 :: "'a list \<Rightarrow> 'a option" where
  \<comment> \<open>\<open>xs[0]\<close>: \<open>None\<close> is \<open>undefined\<close>\<close>
  "at0 xs = (case xs of [] \<Rightarrow> None | x # _ \<Rightarrow> Some x)"

section \<open>Regular expressions\<close>

text \<open>
  The regular expressions of the source use characters, character classes, the
  assertions \<open>^\<close>, \<open>$\<close> and \<open>\b\<close>, sequence, alternation, greedy and lazy
  quantifiers and capture groups.  With the flag \<open>i\<close> (and without \<open>u\<close>) two code units
  match when their canonical forms agree; a code unit outside ASCII never canonicalises
  to an ASCII one, and neither the bullet nor a Unicode space of the patterns is a case
  variant of another character, so on these patterns canonicalisation is ASCII upper-casing.
\<close>
definition canonicalize :: "bool \<Rightarrow> jschar \<Rightarrow> jschar" where
  "canonicalize ic c = (if ic then ascii_upper c else c)"

datatype cset = CChr jschar | CRng jschar jschar | CDigit | CSpace | CNonSpace

datatype regex =
    Eps
  | Chr jschar
  | Cls bool "cset list"
  | Bol | Eol | Wordb
  | Seq regex regex
  | Alt regex regex
  | Rep regex nat "nat option" bool
  | Grp nat regex

text \<open>
  A matcher state: the code unit before the current position (\<open>None\<close> at the start of
  the input), the rest of the input, and the captures made so far.
\<close>
datatype mstate = MState (prev: "jschar option") (rest: jsstring) (caps: "(nat \<times> jsstring) list")

fun in_cset :: "bool \<Rightarrow> jschar \<Rightarrow> cset \<Rightarrow> bool" where
  "in_cset ic c (CChr a) = (canonicalize ic c = canonicalize ic a)"
| "in_cset ic c (CRng lo hi) =
     ((lo \<le> c \<and> c \<le> hi) \<or>
      (ic \<and> ((lo \<le> ascii_upper c \<and> ascii_upper c \<le> hi) \<or>
             (lo \<le> ascii_lower c \<and> ascii_lower c \<le> hi))))"
| "in_cset ic c CDigit = is_digit c"
| "in_cset ic c CSpace = is_space c"
| "in_cset ic c CNonSpace = (\<not> is_space c)"

definition cls_match :: "bool \<Rightarrow> bool \<Rightarrow> cset list \<Rightarrow> jschar \<Rightarrow> bool" where
  "cls_match ic neg items c = (list_ex (in_cset ic c) items \<noteq> neg)"

definition at_word :: "jschar option \<Rightarrow> bool" where
  "at_word p = (case p of None \<Rightarrow> False | Some c \<Rightarrow> is_word c)"

definition next_char :: "jsstring \<Rightarrow> jschar option" where
  "next_char s = (case s of [] \<Rightarrow> None | c # _ \<Rightarrow> Some c)"

fun rsize :: "regex \<Rightarrow> nat" where
  "rsize (Seq a b) = Suc (rsize a + rsize b)"
| "rsize (Alt a b) = Suc (rsize a + rsize b)"
| "rsize (Rep r _ _ _) = Suc (rsize r)"
| "rsize (Grp _ r) = Suc (rsize r)"
| "rsize _ = 0"

fun rmin :: "regex \<Rightarrow> nat" where
  "rmin (Rep _ mn _ _) = mn"
| "rmin _ = 0"

definition set_cap :: "nat \<Rightarrow> jsstring \<Rightarrow> (nat \<times> jsstring) list \<Rightarrow> (nat \<times> jsstring) list" where
  "set_cap n s cs = (n, s) # filter (\<lambda>kv. fst kv \<noteq> n) cs"

definition consumed :: "jsstring \<Rightarrow> mstate \<Rightarrow> jsstring" where
  "consumed s st = take (length s - length (rest st)) s"

text \<open>
  The backtracking matcher, as the list of the states in which the pattern can end, in
  the order in which backtracking tries them: the head of the list is the match that
  \<open>exec\<close> reports.  A quantifier with maximum 0 matches the empty string; below its
  minimum it must iterate; at minimum 0 an iteration that consumes nothing is rejected;
  a greedy quantifier tries one more iteration before stopping, a lazy one after.
\<close>
function rmatch :: "bool \<Rightarrow> regex \<Rightarrow> mstate \<Rightarrow> mstate list" where
  "rmatch ic Eps st = [st]"
| "rmatch ic (Chr a) st =
     (case rest st of [] \<Rightarrow> []
      | c # cs \<Rightarrow> if canonicalize ic c = canonicalize ic a then [MState (Some c) cs (caps st)] else [])"
| "rmatch ic (Cls neg items) st =
     (case rest st of [] \<Rightarrow> []
      | c # cs \<Rightarrow> if cls_match ic neg items c then [MState (Some c) cs (caps st)] else [])"
| "rmatch ic Bol st = (if prev st = None then [st] else [])"
| "rmatch ic Eol st = (if rest st = [] then [st] else [])"
| "rmatch ic Wordb st = (if at_word (prev st) \<noteq> at_word (next_char (rest st)) then [st] else [])"
| "rmatch ic (Seq a b) st = concat (map (rmatch ic b) (rmatch ic a st))"
| "rmatch ic (Alt a b) st = rmatch ic a st @ rmatch ic b st"
| "rmatch ic (Grp n r) st =
     map (\<lambda>st'. MState (prev st') (rest st') (set_cap n (consumed (rest st) st') (caps st')))
         (rmatch ic r st)"
| "rmatch ic (Rep r mn mx g) st =
     (if mx = Some 0 then [st]
      else
        let more =
          concat (map (rmatch ic (Rep r (mn - 1) (map_option (\<lambda>k. k - 1) mx) g))
                      (filter (\<lambda>st'. if mn = 0 then length (rest st') < length (rest st)
                                      else length (rest st') \<le> length (rest st))
                              (rmatch ic r st)))
        in if 0 < mn then more else if g then more @ [st] else st # more)"
  by pat_completeness auto
termination
  by (relation "inv_image (less_than <*lex*> less_than <*lex*> less_than)
                  (\<lambda>(ic, r, st). (rsize r, length (rest st), rmin r))")
     (auto split: if_splits)

text \<open>Pattern syntax: a literal string, a sequence, an alternation, \<open>?\<close>, \<open>*\<close>, \<open>+\<close>.\<close>
fun seqs :: "regex list \<Rightarrow> regex" where
  "seqs [] = Eps"
| "seqs [r] = r"
| "seqs (r # rs) = Seq r (seqs rs)"

fun alts :: "regex list \<Rightarrow> regex" where
  "alts [] = Eps"
| "alts [r] = r"
| "alts (r # rs) = Alt r (alts rs)"

definition lit :: "string \<Rightarrow> regex" where
  "lit s = seqs (map Chr (js s))"

definition opt :: "regex \<Rightarrow> regex" where
  "opt r = Rep r 0 (Some 1) True"

definition star :: "regex \<Rightarrow> regex" where
  "star r = Rep r 0 None True"

definition plus :: "regex \<Rightarrow> regex" where
  "plus r = Rep r 1 None True"

text \<open>
  The result of \<open>exec\<close>: the input before the match, the matched substring (element 0
  of the match array), the input after it, and the capture groups.
\<close>
datatype rmatch_result =
  Match (before: jsstring) (whole: jsstring) (after: jsstring) (groups: "(nat \<times> jsstring) list")

definition last_char :: "jsstring \<Rightarrow> jschar option" where
  \<comment> \<open>of a reversed prefix\<close>
  "last_char bef = (case bef of [] \<Rightarrow> None | c # _ \<Rightarrow> Some c)"

text \<open>\<open>exec\<close> tries every start position from the left, the end of the input included.\<close>
fun exec_from :: "bool \<Rightarrow> regex \<Rightarrow> jsstring \<Rightarrow> jsstring \<Rightarrow> rmatch_result option" where
  "exec_from ic re bef s =
     (case rmatch ic re (MState (last_char bef) s []) of
        st # _ \<Rightarrow> Some (Match (rev bef) (consumed s st) (rest st) (caps st))
      | [] \<Rightarrow> (case s of [] \<Rightarrow> None | c # cs \<Rightarrow> exec_from ic re (c # bef) cs))"

definition exec :: "bool \<Rightarrow> regex \<Rightarrow> jsstring \<Rightarrow> rmatch_result option" where
  \<comment> \<open>\<open>s.match(re)\<close> for a pattern without the flag \<open>g\<close>\<close>
  "exec ic re s = exec_from ic re [] s"

definition group :: "rmatch_result \<Rightarrow> nat \<Rightarrow> jsstring option" where
  \<comment> \<open>\<open>m[n]\<close> for \<open>n > 0\<close>: \<open>None\<close> is \<open>undefined\<close>, a group that took no part\<close>
  "group m n = map_of (groups m) n"

text \<open>
  \<open>s.match(re)\<close> with the flag \<open>g\<close>: all matches from left to right, each search
  starting where the last match ended, one further after an empty match.  The empty
  list stands for \<open>null\<close>.
\<close>
function match_all_from :: "bool \<Rightarrow> regex \<Rightarrow> jschar option \<Rightarrow> jsstring \<Rightarrow> jsstring list" where
  "match_all_from ic re p s =
     (case rmatch ic re (MState p s []) of
        st # _ \<Rightarrow>
          (if length s - length (rest st) = 0
           then [] # (case s of [] \<Rightarrow> [] | c # cs \<Rightarrow> match_all_from ic re (Some c) cs)
           else consumed s st # match_all_from ic re (prev st) (rest st))
      | [] \<Rightarrow> (case s of [] \<Rightarrow> [] | c # cs \<Rightarrow> match_all_from ic re (Some c) cs))"
  by pat_completeness auto
termination
  by (relation "measure (\<lambda>(ic, re, p, s). length s)") auto

definition match_all :: "bool \<Rightarrow> regex \<Rightarrow> jsstring \<Rightarrow> jsstring list option" where
  "match_all ic re s = (case match_all_from ic re None s of [] \<Rightarrow> None | ms \<Rightarrow> Some ms)"

text \<open>Replacement templates: literal text and \<open>$n\<close>; an unset group expands to nothing.\<close>
datatype rpart = RLit jsstring | RGrp nat

fun expand :: "rpart list \<Rightarrow> (nat \<times> jsstring) list \<Rightarrow> jsstring" where
  "expand [] cs = []"
| "expand (RLit s # ps) cs = s @ expand ps cs"
| "expand (RGrp n # ps) cs = (case map_of cs n of None \<Rightarrow> [] | Some s \<Rightarrow> s) @ expand ps cs"

definition replace_first :: "bool \<Rightarrow> regex \<Rightarrow> rpart list \<Rightarrow> jsstring \<Rightarrow> jsstring" where
  \<comment> \<open>\<open>s.replace(re, template)\<close> without the flag \<open>g\<close>\<close>
  "replace_first ic re tpl s =
     (case exec ic re s of None \<Rightarrow> s
      | Some m \<Rightarrow> before m @ expand tpl (groups m) @ after m)"

function replace_all_from :: "bool \<Rightarrow> regex \<Rightarrow> rpart list \<Rightarrow> jschar option \<Rightarrow> jsstring \<Rightarrow> jsstring" where
  "replace_all_from ic re tpl p s =
     (case rmatch ic re (MState p s []) of
        st # _ \<Rightarrow>
          (if length s - length (rest st) = 0
           then expand tpl (caps st) @
                (case s of [] \<Rightarrow> [] | c # cs \<Rightarrow> c # replace_all_from ic re tpl (Some c) cs)
           else expand tpl (caps st) @ replace_all_from ic re tpl (prev st) (rest st))
      | [] \<Rightarrow> (case s of [] \<Rightarrow> [] | c # cs \<Rightarrow> c # replace_all_from ic re tpl (Some c) cs))"
  by pat_completeness auto
termination
  by (relation "measure (\<lambda>(ic, re, tpl, p, s). length s)") auto

definition replace_all :: "bool \<Rightarrow> regex \<Rightarrow> rpart list \<Rightarrow> jsstring \<Rightarrow> jsstring" where
  \<comment> \<open>\<open>s.replace(re, template)\<close> with the flag \<open>g\<close>\<close>
  "replace_all ic re tpl s = replace_all_from ic re tpl None s"

text \<open>
  \<open>s.split(re)\<close>: the pieces between the matches.  At each position the pattern is tried
  there only; a match that ends where the current piece starts is skipped; no match is
  tried at the end of the input.  An empty input gives one empty piece, unless the
  pattern matches the empty string.
\<close>
function split_from :: "bool \<Rightarrow> regex \<Rightarrow> jschar option \<Rightarrow> jsstring \<Rightarrow> jsstring \<Rightarrow> jsstring list" where
  "split_from ic re p cur [] = [rev cur]"
| "split_from ic re p cur (c # cs) =
     (case rmatch ic re (MState p (c # cs) []) of
        st # _ \<Rightarrow>
          (if length (c # cs) - length (rest st) = 0
           then (if cur = [] then split_from ic re (Some c) [c] cs
                 else rev cur # split_from ic re (Some c) [c] cs)
           else rev cur # split_from ic re (prev st) [] (rest st))
      | [] \<Rightarrow> split_from ic re (Some c) (c # cur) cs)"
  by pat_completeness auto
termination
  by (relation "measure (\<lambda>(ic, re, p, cur, s). length s)") auto

definition split_re :: "bool \<Rightarrow> regex \<Rightarrow> jsstring \<Rightarrow> jsstring list" where
  "split_re ic re s =
     (if s = [] then (case rmatch ic re (MState None [] []) of [] \<Rightarrow> [[]] | _ \<Rightarrow> [])
      else split_from ic re None [] s)"

declare rmatch.simps [simp del]

declare exec_from.simps [simp del]

declare match_all_from.simps [simp del]

declare replace_all_from.simps [simp del]

declare split_from.simps [simp del]

section \<open>The pattern extractor\<close>

text \<open>An object literal: its properties in the order they are written.\<close>
type_synonym jsobject = "(string \<times> jsstring) list"

text \<open>
  \<open>extractFallback(text, filename = 'document.txt')\<close> of \<open>server.js\<close>.  The result is
  \<open>None\<close> where the source raises a TypeError: a method called on an unset capture
  group or on a missing array element.
\<close>
definition extractFallback :: "casing \<Rightarrow> jsstring \<Rightarrow> jsstring option \<Rightarrow> jsobject option" where
  "extractFallback T text filename_arg =
    (let filename = (case filename_arg of None \<Rightarrow> js ''document.txt'' | Some f \<Rightarrow> f);
         legislationTitle0 =
           join (js '' '')
             (map (\<lambda>word. toUpperCase T (charAt0 word) @ toLowerCase T (slice1 word))
               (split_chr (ch CHR '' '')
                 (replace_all False
                    (seqs [Grp 1 (Cls False [CRng (ch CHR ''a'') (ch CHR ''z'')]),
                           Grp 2 (Cls False [CRng (ch CHR ''A'') (ch CHR ''Z'')])])
                    [RGrp 1, RLit (js '' ''), RGrp 2]
                    (replace_all False (Cls False [CChr (ch CHR ''-''), CChr (ch CHR ''_'')])
                       [RLit (js '' '')]
                       (replace_first False
                          (seqs [Chr (ch CHR ''.''),
                                 plus (Cls True [CChr (ch CHR ''/''), CChr (ch CHR ''.'')]), Eol])
                          [] filename)))));
         titleMatch =
           exec True
             (seqs [alts [Bol, Chr LF],
                    alts [seqs [lit ''A'', opt (lit ''N''), lit '' '',
                                alts [lit ''ACT'', lit ''BILL'', lit ''LAW'']],
                          lit ''TITLE''],
                    plus (Cls False [CChr (ch CHR '':''), CSpace]),
                    Grp 1 (plus (Cls True [CChr LF]))])
             text
     in do {
       legislationTitle \<leftarrow>
         (case titleMatch of None \<Rightarrow> Some legislationTitle0
          | Some m \<Rightarrow> map_option trim (group m 1));
       let yearMatch =
             exec False
               (seqs [Wordb, Grp 1 (alts [lit ''19'', lit ''20'']),
                      Rep (Cls False [CDigit]) 2 (Some 2) True, Wordb])
               text;
       let legislationYear = (case yearMatch of None \<Rightarrow> [] | Some m \<Rightarrow> whole m);
       let summaryMatch =
             exec True
               (seqs [alts [lit ''purpose'', lit ''summary'', lit ''overview'',
                            seqs [lit ''object'', opt (lit ''s'')]],
                      star (Cls False [CChr (ch CHR '':''), CSpace]),
                      opt (Chr LF),
                      Grp 1 (Rep (Cls False [CSpace, CNonSpace]) 100 (Some 500) False),
                      alts [seqs [Chr LF, Chr LF],
                            seqs [Chr LF, Cls False [CRng (ch CHR ''A'') (ch CHR ''Z'')]]]])
               text;
       legislationSummary \<leftarrow>
         (case summaryMatch of
            Some m \<Rightarrow>
              map_option
                (\<lambda>g. substring0 300 (replace_all False (plus (Cls False [CSpace])) [RLit (js '' '')] (trim g)))
                (group m 1)
          | None \<Rightarrow>
              map_option
                (\<lambda>firstPara. trim (replace_all False (plus (Cls False [CSpace])) [RLit (js '' '')] firstPara))
                (at0 (split_re False (seqs [Chr LF, Chr LF]) (substring0 500 text))));
       let objectivesMatch =
             exec True
               (seqs [alts [seqs [lit ''objective'', opt (lit ''s'')],
                            seqs [lit ''aim'', opt (lit ''s'')],
                            seqs [lit ''purpose'', opt (lit ''s'')]],
                      star (Cls False [CChr (ch CHR '':''), CSpace]),
                      opt (Chr LF),
                      Grp 1 (plus (seqs [Cls False [CChr BULLET, CChr (ch CHR ''-''), CDigit,
                                                    CChr (ch CHR ''('')],
                                         plus (Cls True [CChr LF]),
                                         opt (Chr LF)]))])
               text;
       primaryObjectives \<leftarrow>
         (case objectivesMatch of None \<Rightarrow> Some []
          | Some m \<Rightarrow> map_option trim (group m 1));
       let agencyMatches =
             match_all True
               (seqs [alts [lit ''minister'', lit ''ministry'', lit ''department'', lit ''agency'',
                            lit ''authority'', lit ''commission'', lit ''board'', lit ''office''],
                      Rep (Cls True [CChr (ch CHR '',''), CChr LF]) 0 (Some 50) True])
               text;
       let implementingAgencies =
             (case agencyMatches of None \<Rightarrow> []
              | Some ms \<Rightarrow> join (js '', '') (take 5 (new_Set (map trim ms))));
       Some
         [(''legislationTitle'', legislationTitle),
          (''legislationYear'', legislationYear),
          (''legislationSummary'',
             or_else legislationSummary
               (js ''This legislation establishes a framework for governance in its designated policy area.'')),
          (''primaryObjectives'',
             or_else primaryObjectives
               (BULLET # js '' To be extracted from the document'' @
                LF # BULLET # js '' Review the full text for specific objectives'')),
          (''implementingAgencies'',
             or_else implementingAgencies (js ''Relevant government ministries and agencies'')),
          (''suggestedCountry'', []),
          (''jurisdictionLevel'', js ''national''),
          (''parliamentType'', []),
          (''keyProvisions'', []),
          (''reviewClauses'', [])]
     })"

text \<open>
  \<open>extractLegislationFallback(text, filename)\<close> of \<open>aiService.js\<close>, the client-side copy.
  It has no default for \<open>filename\<close>: on \<open>undefined\<close> the first method call raises.
\<close>
definition extractLegislationFallback :: "casing \<Rightarrow> jsstring \<Rightarrow> jsstring option \<Rightarrow> jsobject option" where
  "extractLegislationFallback T text filename_arg =
    (case filename_arg of None \<Rightarrow> None
     | Some filename \<Rightarrow>
     let legislationTitle0 =
           join (js '' '')
             (map (\<lambda>word. toUpperCase T (charAt0 word) @ toLowerCase T (slice1 word))
               (split_chr (ch CHR '' '')
                 (replace_all False
                    (seqs [Grp 1 (Cls False [CRng (ch CHR ''a'') (ch CHR ''z'')]),
                           Grp 2 (Cls False [CRng (ch CHR ''A'') (ch CHR ''Z'')])])
                    [RGrp 1, RLit (js '' ''), RGrp 2]
                    (replace_all False (Cls False [CChr (ch CHR ''-''), CChr (ch CHR ''_'')])
                       [RLit (js '' '')]
                       (replace_first False
                          (seqs [Chr (ch CHR ''.''),
                                 plus (Cls True [CChr (ch CHR ''/''), CChr (ch CHR ''.'')]), Eol])
                          [] filename)))));
         titleMatch =
           exec True
             (seqs [alts [Bol, Chr LF],
                    alts [seqs [lit ''A'', opt (lit ''N''), lit '' '',
                                alts [lit ''ACT'', lit ''BILL'', lit ''LAW'']],
                          lit ''TITLE''],
                    plus (Cls False [CChr (ch CHR '':''), CSpace]),
                    Grp 1 (plus (Cls True [CChr LF]))])
             text
     in do {
       legislationTitle \<leftarrow>
         (case titleMatch of None \<Rightarrow> Some legislationTitle0
          | Some m \<Rightarrow> map_option trim (group m 1));
       let yearMatch =
             exec False
               (seqs [Wordb, Grp 1 (alts [lit ''19'', lit ''20'']),
                      Rep (Cls False [CDigit]) 2 (Some 2) True, Wordb])
               text;
       let legislationYear = (case yearMatch of None \<Rightarrow> [] | Some m \<Rightarrow> whole m);
       let summaryMatch =
             exec True
               (seqs [alts [lit ''purpose'', lit ''summary'', lit ''overview'',
                            seqs [lit ''object'', opt (lit ''s'')]],
                      star (Cls False [CChr (ch CHR '':''), CSpace]),
                      opt (Chr LF),
                      Grp 1 (Rep (Cls False [CSpace, CNonSpace]) 100 (Some 500) False),
                      alts [seqs [Chr LF, Chr LF],
                            seqs [Chr LF, Cls False [CRng (ch CHR ''A'') (ch CHR ''Z'')]]]])
               text;
       legislationSummary \<leftarrow>
         (case summaryMatch of
            Some m \<Rightarrow>
              map_option
                (\<lambda>g. substring0 300 (replace_all False (plus (Cls False [CSpace])) [RLit (js '' '')] (trim g)))
                (group m 1)
          | None \<Rightarrow>
              map_option
                (\<lambda>firstPara. trim (replace_all False (plus (Cls False [CSpace])) [RLit (js '' '')] firstPara))
                (at0 (split_re False (seqs [Chr LF, Chr LF]) (substring0 500 text))));
       let objectivesMatch =
             exec True
               (seqs [alts [seqs [lit ''objective'', opt (lit ''s'')],
                            seqs [lit ''aim'', opt (lit ''s'')],
                            seqs [lit ''purpose'', opt (lit ''s'')]],
                      star (Cls False [CChr (ch CHR '':''), CSpace]),
                      opt (Chr LF),
                      Grp 1 (plus (seqs [Cls False [CChr BULLET, CChr (ch CHR ''-''), CDigit,
                                                    CChr (ch CHR ''('')],
                                         plus (Cls True [CChr LF]),
                                         opt (Chr LF)]))])
               text;
       primaryObjectives \<leftarrow>
         (case objectivesMatch of None \<Rightarrow> Some []
          | Some m \<Rightarrow> map_option trim (group m 1));
       let agencyMatches =
             match_all True
               (seqs [alts [lit ''minister'', lit ''ministry'', lit ''department'', lit ''agency'',
                            lit ''authority'', lit ''commission'', lit ''board'', lit ''office''],
                      Rep (Cls True [CChr (ch CHR '',''), CChr LF]) 0 (Some 50) True])
               text;
       let implementingAgencies =
             (case agencyMatches of None \<Rightarrow> []
              | Some ms \<Rightarrow> join (js '', '') (take 5 (new_Set (map trim ms))));
       Some
         [(''legislationTitle'', legislationTitle),
          (''legislationYear'', legislationYear),
          (''legislationSummary'',
             or_else legislationSummary
               (js ''This legislation establishes a framework for governance in its designated policy area.'')),
          (''primaryObjectives'',
             or_else primaryObjectives
               (BULLET # js '' To be extracted from the document'' @
                LF # BULLET # js '' Review the full text for specific objectives'')),
          (''implementingAgencies'',
             or_else implementingAgencies (js ''Relevant government ministries and agencies'')),
          (''suggestedCountry'', []),
          (''jurisdictionLevel'', js ''national''),
          (''parliamentType'', []),
          (''keyProvisions'', []),
          (''reviewClauses'', []),
          (''_method'', js ''fallback'')]
     })"

text \<open>The fields of the data model, and those among them that the heuristics compute.\<close>
definition extraction_fields :: "string list" where
  "extraction_fields =
     [''legislationTitle'', ''legislationYear'', ''legislationSummary'', ''primaryObjectives'',
      ''implementingAgencies'', ''suggestedCountry'', ''jurisdictionLevel'', ''parliamentType'',
      ''keyProvisions'', ''reviewClauses'']"

definition data_model_fields :: "string list" where
  "data_model_fields = extraction_fields @ [''_method'']"

definition field :: "jsobject option \<Rightarrow> string \<Rightarrow> jsstring option" where
  \<comment> \<open>\<open>r.k\<close> of a returned object: \<open>None\<close> when the call raised or the property is absent\<close>
  "field r k = (case r of None \<Rightarrow> None | Some obj \<Rightarrow> map_of obj k)"

definition fully_populated :: "string list \<Rightarrow> jsobject option \<Rightarrow> bool" where
  "fully_populated ks r = list_all (\<lambda>k. field r k \<noteq> None) ks"

section \<open>The extract endpoint\<close>

text \<open>
  A property of the request body as the JSON middleware leaves it: \<open>undefined\<close> when the
  property is absent, \<open>null\<close>, a boolean, a number (by its value; parsing JSON yields no
  NaN), a string, or an array or object.
\<close>
datatype jsvalue = JUndefined | JNull | JBool bool | JNumber real | JString jsstring | JObject

text \<open>The values \<open>v\<close> for which \<open>!v\<close> is false.\<close>
fun truthy :: "jsvalue \<Rightarrow> bool" where
  "truthy JUndefined = False"
| "truthy JNull = False"
| "truthy (JBool b) = b"
| "truthy (JNumber x) = (x \<noteq> 0)"
| "truthy (JString s) = (s \<noteq> [])"
| "truthy JObject = True"

text \<open>
  The call \<open>extractFallback(text, filename)\<close> on values of the request.  The default of
  the parameter \<open>filename\<close> applies to \<open>undefined\<close> only; on any other value that is not a
  string \<open>filename.replace\<close> raises a TypeError, and so does \<open>text.match\<close> on a text that
  is not a string.
\<close>
definition extractFallback_call :: "casing \<Rightarrow> jsvalue \<Rightarrow> jsvalue \<Rightarrow> jsobject option" where
  "extractFallback_call T text filename =
     (case filename of
        JUndefined \<Rightarrow> (case text of JString t \<Rightarrow> extractFallback T t None | _ \<Rightarrow> None)
      | JString f \<Rightarrow> (case text of JString t \<Rightarrow> extractFallback T t (Some f) | _ \<Rightarrow> None)
      | _ \<Rightarrow> None)"

text \<open>
  What the upstream call can do: \<open>fetch\<close> rejects; or it resolves with a response whose
  \<open>ok\<close> flag is given and whose body either is not JSON (\<open>response.json()\<close> rejects with a
  message), or is JSON from which reading \<open>data.content[0].text\<close> and calling \<open>match\<close> on
  it raises, or carries a reply text.
\<close>
datatype reply = NotJson jsstring | NoText jsstring | ReplyText jsstring

datatype upstream = FetchRejected jsstring | Response bool reply

datatype 'j payload = Extracted jsobject | Parsed 'j

record 'j envelope =
  success :: bool
  method_tag :: jsstring
  data :: "'j payload"
  warning :: "jsstring option"

text \<open>
  What the handler does: it answers with status 400 and an error message, or with
  status 200 and an envelope, or an error leaves it (\<open>Unhandled\<close>) and it sends nothing.
\<close>
datatype 'j http_response = Status400 jsstring | Status200 "'j envelope" | Unhandled

text \<open>The two properties that the handler reads from the body of the request.\<close>
record request =
  req_text :: jsvalue
  req_filename :: jsvalue

text \<open>
  The answer with the pattern extractor's result.  Should the extractor raise, the
  \<open>catch\<close> block calls it again on the same arguments, and the error leaves the handler.
\<close>
definition fallback_response ::
    "casing \<Rightarrow> jsvalue \<Rightarrow> jsvalue \<Rightarrow> jsstring option \<Rightarrow> 'j http_response" where
  "fallback_response T text filename w =
     (case extractFallback_call T text filename of
        None \<Rightarrow> Unhandled
      | Some d \<Rightarrow>
          Status200 \<lparr>success = True, method_tag = js ''fallback'', data = Extracted d, warning = w\<rparr>)"

text \<open>
  The handler of \<open>POST /api/extract\<close>.  \<open>api_key\<close> is the configured credential, \<open>up\<close> the
  outcome of the upstream call, \<open>parse\<close> the host's \<open>JSON.parse\<close> (\<open>Inl\<close> its error message).
  On a truthy text that is not a string \<open>text.trim()\<close> raises, which leads to the \<open>catch\<close>
  block with the message of the engine.
\<close>
definition extract_endpoint ::
    "casing \<Rightarrow> jsstring option \<Rightarrow> upstream \<Rightarrow> (jsstring \<Rightarrow> jsstring + 'j) \<Rightarrow> request
       \<Rightarrow> 'j http_response" where
  "extract_endpoint T api_key up parse req =
     (if \<not> truthy (req_text req)
      then Status400 (js ''Document text is too short for analysis'')
      else
        case req_text req of
          JString text \<Rightarrow>
            if length (trim text) < 50
            then Status400 (js ''Document text is too short for analysis'')
            else if api_key = None \<or> api_key = Some []
            then fallback_response T (req_text req) (req_filename req) None
            else
              (case up of
                 FetchRejected e \<Rightarrow> fallback_response T (req_text req) (req_filename req) (Some e)
               | Response ok rep \<Rightarrow>
                   if \<not> ok
                   then (case rep of
                           NotJson e \<Rightarrow>
                             fallback_response T (req_text req) (req_filename req) (Some e)
                         | _ \<Rightarrow>
                             fallback_response T (req_text req) (req_filename req)
                               (Some (js ''AI extraction failed, used pattern matching'')))
                   else
                     (case rep of
                        NotJson e \<Rightarrow> fallback_response T (req_text req) (req_filename req) (Some e)
                      | NoText e \<Rightarrow> fallback_response T (req_text req) (req_filename req) (Some e)
                      | ReplyText content \<Rightarrow>
                          (case exec False
                                  (seqs [Chr (ch CHR 0x7B), star (Cls False [CSpace, CNonSpace]),
                                         Chr (ch CHR 0x7D)])
                                  content of
                             Some jsonMatch \<Rightarrow>
                               (case parse (whole jsonMatch) of
                                  Inr extractedData \<Rightarrow>
                                    Status200 \<lparr>success = True, method_tag = js ''ai'',
                                               data = Parsed extractedData, warning = None\<rparr>
                                | Inl e \<Rightarrow>
                                    fallback_response T (req_text req) (req_filename req) (Some e))
                           | None \<Rightarrow>
                               fallback_response T (req_text req) (req_filename req)
                                 (Some (js ''Could not parse AI response as JSON'')))))
        | _ \<Rightarrow>
            fallback_response T (req_text req) (req_filename req)
              (Some (js ''text.trim is not a function'')))"

text \<open>The data of an answer that carries the pattern extractor's result.\<close>
definition response_data :: "'j http_response \<Rightarrow> jsobject option" where
  "response_data r =
     (case r of
        Status200 e \<Rightarrow> (case data e of Extracted d \<Rightarrow> Some d | Parsed _ \<Rightarrow> None)
      | _ \<Rightarrow> None)"

section \<open>The steps of the extractor\<close>

text \<open>
  The patterns and the intermediate values of the extractor, named after the local
  variables of the source, for stating properties of single steps.
\<close>
definition extRe :: regex where
  "extRe = seqs [Chr (ch CHR ''.''), plus (Cls True [CChr (ch CHR ''/''), CChr (ch CHR ''.'')]), Eol]"

definition hyphenRe :: regex where
  "hyphenRe = Cls False [CChr (ch CHR ''-''), CChr (ch CHR ''_'')]"

definition camelRe :: regex where
  "camelRe = seqs [Grp 1 (Cls False [CRng (ch CHR ''a'') (ch CHR ''z'')]),
                   Grp 2 (Cls False [CRng (ch CHR ''A'') (ch CHR ''Z'')])]"

definition titleRe :: regex where
  "titleRe =
     seqs [alts [Bol, Chr LF],
           alts [seqs [lit ''A'', opt (lit ''N''), lit '' '',
                       alts [lit ''ACT'', lit ''BILL'', lit ''LAW'']],
                 lit ''TITLE''],
           plus (Cls False [CChr (ch CHR '':''), CSpace]),
           Grp 1 (plus (Cls True [CChr LF]))]"

definition yearRe :: regex where
  "yearRe = seqs [Wordb, Grp 1 (alts [lit ''19'', lit ''20'']),
                  Rep (Cls False [CDigit]) 2 (Some 2) True, Wordb]"

definition summaryRe :: regex where
  "summaryRe =
     seqs [alts [lit ''purpose'', lit ''summary'', lit ''overview'',
                 seqs [lit ''object'', opt (lit ''s'')]],
           star (Cls False [CChr (ch CHR '':''), CSpace]),
           opt (Chr LF),
           Grp 1 (Rep (Cls False [CSpace, CNonSpace]) 100 (Some 500) False),
           alts [seqs [Chr LF, Chr LF],
                 seqs [Chr LF, Cls False [CRng (ch CHR ''A'') (ch CHR ''Z'')]]]]"

definition objectivesRe :: regex where
  "objectivesRe =
     seqs [alts [seqs [lit ''objective'', opt (lit ''s'')],
                 seqs [lit ''aim'', opt (lit ''s'')],
                 seqs [lit ''purpose'', opt (lit ''s'')]],
           star (Cls False [CChr (ch CHR '':''), CSpace]),
           opt (Chr LF),
           Grp 1 (plus (seqs [Cls False [CChr BULLET, CChr (ch CHR ''-''), CDigit,
                                         CChr (ch CHR ''('')],
                              plus (Cls True [CChr LF]),
                              opt (Chr LF)]))]"

definition agencyRe :: regex where
  "agencyRe =
     seqs [alts [lit ''minister'', lit ''ministry'', lit ''department'', lit ''agency'',
                 lit ''authority'', lit ''commission'', lit ''board'', lit ''office''],
           Rep (Cls True [CChr (ch CHR '',''), CChr LF]) 0 (Some 50) True]"

definition spacesRe :: regex where
  "spacesRe = plus (Cls False [CSpace])"

definition paraRe :: regex where
  "paraRe = seqs [Chr LF, Chr LF]"

definition jsonRe :: regex where
  "jsonRe = seqs [Chr (ch CHR 0x7B), star (Cls False [CSpace, CNonSpace]), Chr (ch CHR 0x7D)]"

definition title_of_filename :: "casing \<Rightarrow> jsstring \<Rightarrow> jsstring" where
  "title_of_filename T filename =
     join (js '' '')
       (map (\<lambda>word. toUpperCase T (charAt0 word) @ toLowerCase T (slice1 word))
         (split_chr (ch CHR '' '')
           (replace_all False camelRe [RGrp 1, RLit (js '' ''), RGrp 2]
             (replace_all False hyphenRe [RLit (js '' '')]
               (replace_first False extRe [] filename)))))"

definition title_step :: "casing \<Rightarrow> jsstring \<Rightarrow> jsstring \<Rightarrow> jsstring option" where
  "title_step T text filename =
     (case exec True titleRe text of
        None \<Rightarrow> Some (title_of_filename T filename)
      | Some m \<Rightarrow> map_option trim (group m 1))"

definition year_step :: "jsstring \<Rightarrow> jsstring" where
  "year_step text = (case exec False yearRe text of None \<Rightarrow> [] | Some m \<Rightarrow> whole m)"

definition collapse_spaces :: "jsstring \<Rightarrow> jsstring" where
  \<comment> \<open>\<open>s.replace(/\s+/g, ' ')\<close>\<close>
  "collapse_spaces s = replace_all False spacesRe [RLit (js '' '')] s"

definition first_paragraph :: "jsstring \<Rightarrow> jsstring option" where
  "first_paragraph text =
     map_option (\<lambda>firstPara. trim (collapse_spaces firstPara))
       (at0 (split_re False paraRe (substring0 500 text)))"

definition summary_step :: "jsstring \<Rightarrow> jsstring option" where
  "summary_step text =
     (case exec True summaryRe text of
        Some m \<Rightarrow> map_option (\<lambda>g. substring0 300 (collapse_spaces (trim g))) (group m 1)
      | None \<Rightarrow> first_paragraph text)"

definition objectives_step :: "jsstring \<Rightarrow> jsstring option" where
  "objectives_step text =
     (case exec True objectivesRe text of
        None \<Rightarrow> Some []
      | Some m \<Rightarrow> map_option trim (group m 1))"

definition agencies_step :: "jsstring \<Rightarrow> jsstring" where
  "agencies_step text =
     (case match_all True agencyRe text of
        None \<Rightarrow> []
      | Some ms \<Rightarrow> join (js '', '') (take 5 (new_Set (map trim ms))))"

definition default_summary :: jsstring where
  "default_summary =
     js ''This legislation establishes a framework for governance in its designated policy area.''"

definition default_objectives :: jsstring where
  "default_objectives =
     BULLET # js '' To be extracted from the document'' @
     LF # BULLET # js '' Review the full text for specific objectives''"

definition default_agencies :: jsstring where
  "default_agencies = js ''Relevant government ministries and agencies''"

definition result_object ::
    "jsstring \<Rightarrow> jsstring \<Rightarrow> jsstring \<Rightarrow> jsstring \<Rightarrow> jsstring \<Rightarrow> jsobject" where
  "result_object title year summary objectives agencies =
     [(''legislationTitle'', title),
      (''legislationYear'', year),
      (''legislationSummary'', or_else summary default_summary),
      (''primaryObjectives'', or_else objectives default_objectives),
      (''implementingAgencies'', or_else agencies default_agencies),
      (''suggestedCountry'', []),
      (''jurisdictionLevel'', js ''national''),
      (''parliamentType'', []),
      (''keyProvisions'', []),
      (''reviewClauses'', [])]"

section \<open>Specification-level notions\<close>

subsection \<open>Trimming\<close>

text \<open>
  Trimming, said directly: the white space at the start is dropped, then everything
  from the point on where only white space follows.
\<close>
fun strip_left :: "jsstring \<Rightarrow> jsstring" where
  "strip_left [] = []"
| "strip_left (c # cs) = (if is_space c then strip_left cs else c # cs)"

fun strip_right :: "jsstring \<Rightarrow> jsstring" where
  "strip_right [] = []"
| "strip_right (c # cs) = (if list_all is_space (c # cs) then [] else c # strip_right cs)"

definition strip :: "jsstring \<Rightarrow> jsstring" where
  "strip s = strip_right (strip_left s)"

subsection \<open>Years\<close>

text \<open>The code unit before position \<open>k\<close> of a string, if any.\<close>
definition prev_at :: "jsstring \<Rightarrow> nat \<Rightarrow> jschar option" where
  "prev_at s k = (if k = 0 then None else Some (s ! (k - 1)))"

text \<open>
  A year token: four digits that begin with 19 or 20, with no word character directly
  before or after them.
\<close>
definition year_here :: "jschar option \<Rightarrow> jsstring \<Rightarrow> bool" where
  "year_here p s =
     (case s of
        a # b # c # d # r \<Rightarrow>
          ([a, b] = js ''19'' \<or> [a, b] = js ''20'') \<and> is_digit c \<and> is_digit d \<and>
          \<not> at_word p \<and> \<not> at_word (next_char r)
      | _ \<Rightarrow> False)"

definition year_at :: "jsstring \<Rightarrow> nat \<Rightarrow> bool" where
  "year_at text k = (k \<le> length text \<and> year_here (prev_at text k) (drop k text))"

subsection \<open>The title derived from the filename\<close>

text \<open>
  The title derived from a filename, step by step.  The extension is a dot followed to
  the end of the name by at least one code unit, none of them a dot or a slash; hyphens
  and underscores become spaces; a space is put between a lower-case letter and an
  upper-case letter that follows it; every word between spaces gets its first code
  unit in upper case and the others in lower case.
\<close>
definition ext_here :: "jsstring \<Rightarrow> bool" where
  "ext_here s =
     (case s of [] \<Rightarrow> False
      | c # r \<Rightarrow> c = ch CHR ''.'' \<and> r \<noteq> [] \<and> list_all (\<lambda>x. x \<noteq> ch CHR ''/'' \<and> x \<noteq> ch CHR ''.'') r)"

fun strip_extension :: "jsstring \<Rightarrow> jsstring" where
  "strip_extension [] = []"
| "strip_extension (c # cs) = (if ext_here (c # cs) then [] else c # strip_extension cs)"

definition dashes_to_spaces :: "jsstring \<Rightarrow> jsstring" where
  "dashes_to_spaces s = map (\<lambda>c. if c = ch CHR ''-'' \<or> c = ch CHR ''_'' then ch CHR '' '' else c) s"

fun split_camel :: "jsstring \<Rightarrow> jsstring" where
  "split_camel (a # b # cs) =
     (if is_lower a \<and> is_upper b then a # ch CHR '' '' # split_camel (b # cs)
      else a # split_camel (b # cs))"
| "split_camel cs = cs"

text \<open>
  Letter case, said without the host's functions: the 26 letters of the alphabet in
  their two cases, the case tables of the host for a string with a code unit outside
  ASCII.
\<close>
definition letter_pairs :: "(jschar \<times> jschar) list" where
  "letter_pairs = zip (js ''abcdefghijklmnopqrstuvwxyz'') (js ''ABCDEFGHIJKLMNOPQRSTUVWXYZ'')"

definition upper_letter :: "jschar \<Rightarrow> jschar" where
  "upper_letter c = (case map_of letter_pairs c of Some u \<Rightarrow> u | None \<Rightarrow> c)"

definition lower_letter :: "jschar \<Rightarrow> jschar" where
  "lower_letter c = (case map_of (map prod.swap letter_pairs) c of Some l \<Rightarrow> l | None \<Rightarrow> c)"

definition upper_case :: "casing \<Rightarrow> jsstring \<Rightarrow> jsstring" where
  "upper_case T s = (if list_all is_ascii s then map upper_letter s else upper_table T s)"

definition lower_case :: "casing \<Rightarrow> jsstring \<Rightarrow> jsstring" where
  "lower_case T s = (if list_all is_ascii s then map lower_letter s else lower_table T s)"

definition capitalize :: "casing \<Rightarrow> jsstring \<Rightarrow> jsstring" where
  "capitalize T w = upper_case T (take 1 w) @ lower_case T (drop 1 w)"

definition spec_title :: "casing \<Rightarrow> jsstring \<Rightarrow> jsstring" where
  "spec_title T filename =
     join (js '' '')
       (map (capitalize T)
         (split_chr (ch CHR '' '') (split_camel (dashes_to_spaces (strip_extension filename)))))"

subsection \<open>Title lines\<close>

text \<open>A string begins with a word, ignoring the case of ASCII letters when \<open>ic\<close> is set.\<close>
definition ci_prefix :: "bool \<Rightarrow> jsstring \<Rightarrow> jsstring \<Rightarrow> bool" where
  "ci_prefix ic w s =
     (length w \<le> length s \<and> map (canonicalize ic) (take (length w) s) = map (canonicalize ic) w)"

text \<open>
  Title lines: a line that begins, in any letter case, with one of the keywords,
  directly followed by a colon or a white-space code unit.
\<close>
definition title_keywords :: "jsstring list" where
  "title_keywords =
     [js ''AN ACT'', js ''AN BILL'', js ''AN LAW'', js ''A ACT'', js ''A BILL'', js ''A LAW'',
      js ''TITLE'']"

definition is_sep :: "jschar \<Rightarrow> bool" where
  "is_sep c \<longleftrightarrow> c = ch CHR '':'' \<or> is_space c"

definition keyword_line :: "jsstring \<Rightarrow> bool" where
  "keyword_line s =
     list_ex (\<lambda>w. ci_prefix True w s \<and>
                  (case drop (length w) s of [] \<Rightarrow> False | c # _ \<Rightarrow> is_sep c))
       title_keywords"

definition title_line_at :: "jsstring \<Rightarrow> nat \<Rightarrow> bool" where
  "title_line_at text k =
     (k \<le> length text \<and> (k = 0 \<or> text ! (k - 1) = LF) \<and> keyword_line (drop k text))"

definition is_title_keyword :: "jsstring \<Rightarrow> bool" where
  "is_title_keyword kw =
     list_ex (\<lambda>w. map (canonicalize True) kw = map (canonicalize True) w) title_keywords"

subsection \<open>Agency phrases\<close>

text \<open>
  Agency phrases: scanning from the left, wherever one of the keywords begins (in any
  letter case), the keyword and up to 50 following code units that are neither a comma
  nor a line feed form a phrase, and the scan goes on after the phrase.
\<close>
definition agency_keywords :: "jsstring list" where
  "agency_keywords =
     [js ''minister'', js ''ministry'', js ''department'', js ''agency'', js ''authority'',
      js ''commission'', js ''board'', js ''office'']"

definition tail_len :: "jsstring \<Rightarrow> nat" where
  "tail_len s = min 50 (length (takeWhile (\<lambda>c. c \<noteq> ch CHR '','' \<and> c \<noteq> LF) s))"

definition phrase_len :: "jsstring \<Rightarrow> nat option" where
  "phrase_len s =
     (case find (\<lambda>w. ci_prefix True w s) agency_keywords of
        None \<Rightarrow> None
      | Some w \<Rightarrow> Some (length w + tail_len (drop (length w) s)))"

function agency_phrases :: "jsstring \<Rightarrow> jsstring list" where
  "agency_phrases s =
     (case phrase_len s of
        Some n \<Rightarrow> take n s # agency_phrases (drop n s)
      | None \<Rightarrow> (case s of [] \<Rightarrow> [] | c # cs \<Rightarrow> agency_phrases cs))"
  by pat_completeness auto
termination
proof (relation "measure length")
  fix s :: jsstring and n
  assume "phrase_len s = Some n"
  then obtain w where w: "find (\<lambda>w. ci_prefix True w s) agency_keywords = Some w"
    and n: "length w \<le> n"
    by (auto simp: phrase_len_def split: option.splits)
  from w have "w \<in> set agency_keywords" and "ci_prefix True w s"
    by (auto simp: find_Some_iff)
  then have "0 < length w" and "length w \<le> length s"
    by (auto simp: agency_keywords_def js_def ci_prefix_def)
  with n have "0 < n" and "0 < length s" by linarith+
  then show "(drop n s, s) \<in> measure length" by simp
qed simp_all

declare agency_phrases.simps [simp del]

text \<open>Removing duplicates, keeping the first occurrence of each element in place.\<close>
primrec first_seen :: "'a list \<Rightarrow> 'a list" where
  "first_seen [] = []"
| "first_seen (x # xs) = x # filter (\<lambda>y. y \<noteq> x) (first_seen xs)"

text \<open>
  The agency entries of a text: its agency phrases, trimmed, each kept where it first
  occurs.  Two entries are the same only if they agree code unit by code unit.
\<close>
definition agency_entries :: "jsstring \<Rightarrow> jsstring list" where
  "agency_entries text = first_seen (map strip (agency_phrases text))"

subsection \<open>The first paragraph\<close>

text \<open>
  The first paragraph: the text before the first empty line (two line feeds in a row);
  and white space collapsed: every run of white-space code units replaced by one space.
\<close>
fun up_to_blank_line :: "jsstring \<Rightarrow> jsstring" where
  "up_to_blank_line (a # b # r) =
     (if a = LF \<and> b = LF then [] else a # up_to_blank_line (b # r))"
| "up_to_blank_line s = s"

function squeeze :: "jsstring \<Rightarrow> jsstring" where
  "squeeze [] = []"
| "squeeze (c # cs) =
     (if is_space c then ch CHR '' '' # squeeze (dropWhile is_space cs) else c # squeeze cs)"
  by pat_completeness auto
termination
  by (relation "measure length") (auto intro: le_imp_less_Suc length_dropWhile_le)

definition spec_first_paragraph :: "jsstring \<Rightarrow> jsstring" where
  "spec_first_paragraph text = strip (squeeze (up_to_blank_line (take 500 text)))"

subsection \<open>Failures of the model-backed path\<close>

text \<open>
  The failures of the model-backed path: no credential configured, a rejected upstream
  call, a response that is not successful, or a reply in which no JSON object is found
  and parsed.
\<close>
definition no_parsable_json :: "(jsstring \<Rightarrow> jsstring + 'j) \<Rightarrow> jsstring \<Rightarrow> bool" where
  "no_parsable_json parse content =
     (case exec False jsonRe content of
        None \<Rightarrow> True
      | Some m \<Rightarrow> (case parse (whole m) of Inl _ \<Rightarrow> True | Inr _ \<Rightarrow> False))"

definition ai_path_fails :: "jsstring option \<Rightarrow> upstream \<Rightarrow> (jsstring \<Rightarrow> jsstring + 'j) \<Rightarrow> bool" where
  "ai_path_fails api_key up parse =
     (api_key = None \<or> api_key = Some [] \<or>
      (case up of
         FetchRejected _ \<Rightarrow> True
       | Response ok rep \<Rightarrow>
           \<not> ok \<or> (case rep of ReplyText content \<Rightarrow> no_parsable_json parse content | _ \<Rightarrow> True)))"

text \<open>A value that is a string, or the value of a property that the request leaves out.\<close>
definition string_or_absent :: "jsvalue \<Rightarrow> bool" where
  "string_or_absent v = (case v of JUndefined \<Rightarrow> True | JString _ \<Rightarrow> True | _ \<Rightarrow> False)"

section \<open>Notions used in the proofs\<close>

definition state_at :: "jsstring \<Rightarrow> jsstring \<Rightarrow> nat \<Rightarrow> mstate" where
  "state_at bef s k = MState (last_char (rev (take k s) @ bef)) (drop k s) []"

text \<open>The state after \<open>k\<close> more code units of the input have been consumed.\<close>
definition advance :: "mstate \<Rightarrow> nat \<Rightarrow> mstate" where
  "advance st k =
     MState (if k = 0 then prev st else Some (rest st ! (k - 1))) (drop k (rest st)) (caps st)"

fun sets_group :: "nat \<Rightarrow> regex \<Rightarrow> bool" where
  "sets_group n (Grp k r) = (k = n \<or> sets_group n r)"
| "sets_group n (Seq a b) = (sets_group n a \<or> sets_group n b)"
| "sets_group n (Alt a b) = (sets_group n a \<and> sets_group n b)"
| "sets_group n (Rep r mn mx g) = (sets_group n r \<and> 0 < mn \<and> mx \<noteq> Some 0)"
| "sets_group n _ = False"

text \<open>The states in which the agency pattern can end when the keyword \<open>w\<close> is tried.\<close>
definition phrase_states :: "mstate \<Rightarrow> jsstring \<Rightarrow> mstate list" where
  "phrase_states st w =
     (if ci_prefix True w (rest st)
      then map (advance (advance st (length w)))
             (rev [0 ..< Suc (tail_len (drop (length w) (rest st)))])
      else [])"

text \<open>The keyword part and the part after it of the title pattern.\<close>
definition titleKw :: regex where
  "titleKw =
     alts [seqs [lit ''A'', opt (lit ''N''), lit '' '', alts [lit ''ACT'', lit ''BILL'', lit ''LAW'']],
           lit ''TITLE'']"

definition titleTail :: regex where
  "titleTail = seqs [plus (Cls False [CChr (ch CHR '':''), CSpace]), Grp 1 (plus (Cls True [CChr LF]))]"

section \<open>Example inputs\<close>

definition ascii_casing :: casing where
  "ascii_casing = \<lparr>upper_table = map ascii_upper, lower_table = map ascii_lower\<rparr>"

definition no_parse :: "jsstring \<Rightarrow> jsstring + unit" where
  "no_parse s = Inl s"

definition sample_text :: jsstring where
  "sample_text = js ''Every person has the right to clean water and to a healthy environment.''"

definition agencies_example :: jsstring where
  "agencies_example =
     js ''Ministry of Health,Department of Energy,Ministry of Health,Water Board,Office of Audit,Ministry of Health,Revenue Authority,Electoral Commission''"

definition spaced_agencies :: jsstring where
  "spaced_agencies =
     js ''the Water Board , the School Board ,Office of Audit '' @ [LF] @ js ''Board of Trade''"

definition two_spellings :: jsstring where
  "two_spellings = js ''Ministry of Health'' @ [LF] @ js ''MINISTRY OF HEALTH''"

definition six_agencies :: jsstring where
  "six_agencies = js ''Ministry of Health,MINISTRY OF HEALTH,Board A,Office B,Agency C,Authority D''"

definition act_example :: jsstring where
  "act_example =
     js ''Preamble'' @ [LF] @ js ''AN ACT: The Data Protection Act'' @ [LF] @ js ''Section 1''"

definition title_next_line :: jsstring where
  "title_next_line = js ''TITLE:'' @ [LF] @ js ''Foo''"

section \<open>Properties of the matcher\<close>

lemmas rmatch_basic = rmatch.simps(1-9)

lemmas rmatch_Rep = rmatch.simps(10)

lemmas eval_defs =
  js_def ch_def LF_def BULLET_def is_space_def is_digit_def is_upper_def is_lower_def is_word_def
  is_ascii_def ascii_upper_def ascii_lower_def canonicalize_def cls_match_def at_word_def
  next_char_def set_cap_def consumed_def rmatch.simps lit_def opt_def star_def plus_def
  last_char_def exec_from.simps exec_def group_def match_all_from.simps match_all_def
  replace_first_def replace_all_from.simps replace_all_def split_from.simps split_re_def
  trim_def substring0_def charAt0_def slice1_def or_else_def new_Set_def at0_def
  toUpperCase_def toLowerCase_def Let_def

lemmas step_defs =
  extRe_def hyphenRe_def camelRe_def titleRe_def yearRe_def summaryRe_def objectivesRe_def
  agencyRe_def spacesRe_def paraRe_def jsonRe_def title_of_filename_def title_step_def
  year_step_def collapse_spaces_def first_paragraph_def summary_step_def objectives_step_def
  agencies_step_def

subsection \<open>Captures and progress\<close>

lemma map_of_set_cap: "map_of (set_cap k s cs) n = (if n = k then Some s else map_of cs n)"
  by (induction cs) (auto simp: set_cap_def)

lemma rmatch_keeps_group:
  "st' \<in> set (rmatch ic r st) \<Longrightarrow> map_of (caps st) n \<noteq> None \<Longrightarrow> map_of (caps st') n \<noteq> None"
proof (induction ic r st arbitrary: st' rule: rmatch.induct)
  case (10 ic r mn mx g st)
  show ?case
  proof (cases "mx = Some 0")
    case True
    with "10.prems" show ?thesis by (simp add: rmatch_Rep)
  next
    case False
    let ?keep = "\<lambda>x. if mn = 0 then length (rest x) < length (rest st)
                      else length (rest x) \<le> length (rest st)"
    let ?r' = "Rep r (mn - 1) (map_option (\<lambda>k. k - 1) mx) g"
    from "10.prems"(1) False
    consider "st' = st"
      | x where "x \<in> set (rmatch ic r st)" "?keep x" "st' \<in> set (rmatch ic ?r' x)"
      by (auto simp: rmatch_Rep[of ic r mn mx g st] Let_def split: if_splits)
    then show ?thesis
    proof cases
      case 1
      with "10.prems" show ?thesis by simp
    next
      case 2
      from "10.IH"(1)[OF False 2(1) "10.prems"(2)] have "map_of (caps x) n \<noteq> None" .
      with "10.IH"(2)[OF False _ 2(3)] 2(1,2) show ?thesis by simp
    qed
  qed
qed (auto simp: rmatch_basic map_of_set_cap split: list.splits if_splits)

lemma rmatch_sets_group:
  "sets_group n r \<Longrightarrow> st' \<in> set (rmatch ic r st) \<Longrightarrow> map_of (caps st') n \<noteq> None"
proof (induction ic r st arbitrary: st' rule: rmatch.induct)
  case (7 ic a b st)
  from "7.prems"(2) obtain x where x: "x \<in> set (rmatch ic a st)" "st' \<in> set (rmatch ic b x)"
    by (auto simp: rmatch_basic)
  show ?case
  proof (cases "sets_group n a")
    case True
    with x "7.IH"(1) have "map_of (caps x) n \<noteq> None" by blast
    with x(2) show ?thesis by (rule rmatch_keeps_group)
  next
    case False
    with "7.prems"(1) have "sets_group n b" by simp
    with x "7.IH"(2) show ?thesis by blast
  qed
next
  case (10 ic r mn mx g st)
  from "10.prems"(1) have r: "sets_group n r" and mn: "0 < mn" and mx: "mx \<noteq> Some 0" by simp_all
  from "10.prems"(2) mn mx obtain x where x: "x \<in> set (rmatch ic r st)"
      "st' \<in> set (rmatch ic (Rep r (mn - 1) (map_option (\<lambda>k. k - 1) mx) g) x)"
    by (auto simp: rmatch_Rep[of ic r mn mx g st] Let_def)
  from "10.IH"(1)[OF mx r x(1)] have "map_of (caps x) n \<noteq> None" .
  with x(2) show ?case by (rule rmatch_keeps_group)
next
  case (9 ic k r st)
  then show ?case by (auto simp: rmatch_basic map_of_set_cap)
next
  case (8 ic a b st)
  then show ?case by (auto simp: rmatch_basic)
qed simp_all

lemma rmatch_rest_le:
  "st' \<in> set (rmatch ic r st) \<Longrightarrow> length (rest st') \<le> length (rest st)"
proof (induction ic r st arbitrary: st' rule: rmatch.induct)
  case (7 ic a b st)
  from "7.prems" obtain x where x: "x \<in> set (rmatch ic a st)" "st' \<in> set (rmatch ic b x)"
    by (auto simp: rmatch_basic)
  from "7.IH"(1)[OF x(1)] "7.IH"(2)[OF x] show ?case by simp
next
  case (10 ic r mn mx g st)
  show ?case
  proof (cases "mx = Some 0")
    case True
    with "10.prems" show ?thesis by (simp add: rmatch_Rep)
  next
    case False
    let ?keep = "\<lambda>x. if mn = 0 then length (rest x) < length (rest st)
                      else length (rest x) \<le> length (rest st)"
    from "10.prems" False
    consider "st' = st"
      | x where "x \<in> set (rmatch ic r st)" "?keep x"
          "st' \<in> set (rmatch ic (Rep r (mn - 1) (map_option (\<lambda>k. k - 1) mx) g) x)"
      by (auto simp: rmatch_Rep[of ic r mn mx g st] Let_def split: if_splits)
    then show ?thesis
    proof cases
      case 1
      then show ?thesis by simp
    next
      case 2
      from "10.IH"(2)[OF False _ 2(3)] 2(1,2) have "length (rest st') \<le> length (rest x)" by simp
      moreover from "10.IH"(1)[OF False 2(1)] have "length (rest x) \<le> length (rest st)" .
      ultimately show ?thesis by simp
    qed
  qed
next
  case (2 ic a st)
  then show ?case by (cases "rest st") (auto simp: rmatch_basic split: if_splits)
next
  case (3 ic neg items st)
  then show ?case by (cases "rest st") (auto simp: rmatch_basic split: if_splits)
qed (auto simp: rmatch_basic split: if_splits)

subsection \<open>The first match\<close>

lemma state_at_0: "state_at bef s 0 = MState (last_char bef) s []"
  by (simp add: state_at_def)

lemma state_at_Suc: "state_at bef (c # cs) (Suc k) = state_at (c # bef) cs k"
  by (simp add: state_at_def)

lemma exec_from_None_iff:
  "exec_from ic re bef s = None \<longleftrightarrow> (\<forall>k\<le>length s. rmatch ic re (state_at bef s k) = [])"
proof (induction s arbitrary: bef)
  case Nil
  show ?case by (simp add: exec_from.simps[of ic re bef "[]"] state_at_def split: list.splits)
next
  case (Cons c cs)
  show ?case
  proof (cases "rmatch ic re (MState (last_char bef) (c # cs) [])")
    case Nil
    have "(\<forall>k\<le>length (c # cs). rmatch ic re (state_at bef (c # cs) k) = []) \<longleftrightarrow>
          (\<forall>k\<le>length cs. rmatch ic re (state_at (c # bef) cs k) = [])"
    proof
      assume h: "\<forall>k\<le>length (c # cs). rmatch ic re (state_at bef (c # cs) k) = []"
      show "\<forall>k\<le>length cs. rmatch ic re (state_at (c # bef) cs k) = []"
      proof (intro allI impI)
        fix k assume "k \<le> length cs"
        with h have "rmatch ic re (state_at bef (c # cs) (Suc k)) = []" by simp
        then show "rmatch ic re (state_at (c # bef) cs k) = []" by (simp add: state_at_Suc)
      qed
    next
      assume h: "\<forall>k\<le>length cs. rmatch ic re (state_at (c # bef) cs k) = []"
      show "\<forall>k\<le>length (c # cs). rmatch ic re (state_at bef (c # cs) k) = []"
      proof (intro allI impI)
        fix k assume k: "k \<le> length (c # cs)"
        show "rmatch ic re (state_at bef (c # cs) k) = []"
        proof (cases k)
          case 0
          with Nil show ?thesis by (simp add: state_at_0)
        next
          case (Suc j)
          with k h show ?thesis by (simp add: state_at_Suc)
        qed
      qed
    qed
    with Nil Cons.IH[of "c # bef"] show ?thesis by (simp add: exec_from.simps[of ic re bef "c # cs"])
  next
    case (Cons st sts)
    then have "rmatch ic re (state_at bef (c # cs) 0) \<noteq> []" by (simp add: state_at_0)
    then have "\<not> (\<forall>k\<le>length (c # cs). rmatch ic re (state_at bef (c # cs) k) = [])" by blast
    with Cons show ?thesis by (simp add: exec_from.simps[of ic re bef "c # cs"])
  qed
qed

lemma exec_from_SomeD:
  "exec_from ic re bef s = Some m \<Longrightarrow>
   \<exists>k st sts. k \<le> length s \<and> (\<forall>j<k. rmatch ic re (state_at bef s j) = []) \<and>
     rmatch ic re (state_at bef s k) = st # sts \<and>
     m = Match (rev bef @ take k s) (consumed (drop k s) st) (rest st) (caps st)"
proof (induction s arbitrary: bef)
  case Nil
  then show ?case
    by (auto simp: exec_from.simps[of ic re bef "[]"] state_at_def split: list.splits)
next
  case (Cons c cs)
  show ?case
  proof (cases "rmatch ic re (MState (last_char bef) (c # cs) [])")
    case Nil
    with Cons.prems have "exec_from ic re (c # bef) cs = Some m"
      by (simp add: exec_from.simps[of ic re bef "c # cs"])
    from Cons.IH[OF this] obtain k st sts where k: "k \<le> length cs"
      "\<forall>j<k. rmatch ic re (state_at (c # bef) cs j) = []"
      "rmatch ic re (state_at (c # bef) cs k) = st # sts"
      "m = Match (rev (c # bef) @ take k cs) (consumed (drop k cs) st) (rest st) (caps st)"
      by blast
    have "\<forall>j<Suc k. rmatch ic re (state_at bef (c # cs) j) = []"
    proof (intro allI impI)
      fix j assume "j < Suc k"
      then show "rmatch ic re (state_at bef (c # cs) j) = []"
        using Nil k(2) by (cases j) (simp_all add: state_at_0 state_at_Suc)
    qed
    with k show ?thesis
      by (intro exI[of _ "Suc k"] exI[of _ st] exI[of _ sts]) (simp add: state_at_Suc)
  next
    case (Cons st sts)
    with Cons.prems have "m = Match (rev bef) (consumed (c # cs) st) (rest st) (caps st)"
      by (simp add: exec_from.simps[of ic re bef "c # cs"])
    with Cons show ?thesis
      by (intro exI[of _ 0] exI[of _ st] exI[of _ sts]) (simp add: state_at_0)
  qed
qed

lemma state_at_Nil: "k \<le> length s \<Longrightarrow> state_at [] s k = MState (prev_at s k) (drop k s) []"
  by (cases k) (simp_all add: state_at_def prev_at_def last_char_def take_Suc_conv_app_nth)

lemma exec_first_match:
  assumes "j0 \<le> length s" and "rmatch ic re (state_at [] s j0) = st # sts"
    and "\<forall>j<j0. rmatch ic re (state_at [] s j) = []"
  shows "\<exists>m. exec ic re s = Some m \<and> groups m = caps st"
proof -
  have "exec_from ic re [] s \<noteq> None"
    unfolding exec_from_None_iff using assms(1,2) by auto
  then obtain m where m: "exec_from ic re [] s = Some m" by blast
  from exec_from_SomeD[OF m] obtain k st' sts' where k: "k \<le> length s"
    "\<forall>j<k. rmatch ic re (state_at [] s j) = []"
    "rmatch ic re (state_at [] s k) = st' # sts'"
    "m = Match (rev [] @ take k s) (consumed (drop k s) st') (rest st') (caps st')"
    by blast
  have "k = j0"
  proof (rule ccontr)
    assume "k \<noteq> j0"
    then consider "k < j0" | "j0 < k" by linarith
    then show False
    proof cases
      case 1
      with assms(3) k(3) show False by simp
    next
      case 2
      with k(2) assms(2) show False by simp
    qed
  qed
  with k(3,4) assms(2) m show ?thesis by (simp add: exec_def)
qed

lemma exec_from_groups:
  "exec_from ic re bef s = Some m \<Longrightarrow> \<exists>st st0. st \<in> set (rmatch ic re st0) \<and> groups m = caps st"
proof (induction s arbitrary: bef)
  case Nil
  then obtain st sts where "rmatch ic re (MState (last_char bef) [] []) = st # sts" "groups m = caps st"
    by (auto simp: exec_from.simps[of ic re bef "[]"] split: list.splits)
  then have "st \<in> set (rmatch ic re (MState (last_char bef) [] []))" by simp
  with \<open>groups m = caps st\<close> show ?case by blast
next
  case (Cons c cs)
  show ?case
  proof (cases "rmatch ic re (MState (last_char bef) (c # cs) [])")
    case Nil
    with Cons show ?thesis by (simp add: exec_from.simps[of ic re bef "c # cs"])
  next
    case (Cons st sts)
    with Cons.prems have "groups m = caps st" by (auto simp: exec_from.simps[of ic re bef "c # cs"])
    moreover have "st \<in> set (rmatch ic re (MState (last_char bef) (c # cs) []))"
      using Cons by simp
    ultimately show ?thesis by blast
  qed
qed

lemma exec_group_set:
  assumes "sets_group n re" and "exec ic re s = Some m"
  shows "group m n \<noteq> None"
proof -
  from assms(2) obtain st st0 where "st \<in> set (rmatch ic re st0)" "groups m = caps st"
    unfolding exec_def by (blast dest: exec_from_groups)
  with assms(1) show ?thesis
    by (simp add: group_def rmatch_sets_group)
qed

lemma split_from_nonempty: "split_from ic re p cur s \<noteq> []"
  by (induction ic re p cur s rule: split_from.induct)
     (auto simp: split_from.simps split: list.splits)

lemma split_re_para_nonempty: "at0 (split_re False (seqs [Chr LF, Chr LF]) s) \<noteq> None"
  by (auto simp: at0_def split_re_def rmatch_basic split_from_nonempty split: list.splits)

subsection \<open>Letter case and character classes\<close>

lemma lower_to_upper: "is_lower c \<Longrightarrow> is_upper (ascii_upper c)"
  unfolding ascii_upper_def is_lower_def is_upper_def
  by simp uint_arith

lemma upper_to_lower: "is_upper c \<Longrightarrow> is_lower (ascii_lower c)"
proof -
  assume u: "is_upper c"
  then have b: "65 \<le> unat c" "unat c \<le> 90"
    by (simp_all add: is_upper_def word_le_nat_alt)
  have "unat (c + 0x20) = (unat c + 32) mod 65536"
    by (simp add: unat_word_ariths)
  with b have "unat (c + 0x20) = unat c + 32" by simp
  with b have "is_lower (c + 0x20)"
    by (simp add: is_lower_def word_le_nat_alt)
  with u show ?thesis by (simp add: ascii_lower_def)
qed

lemma upper_not_lower: "is_upper c \<Longrightarrow> \<not> is_lower c"
  unfolding is_upper_def is_lower_def by (auto simp: word_le_nat_alt)

lemma ascii_upper_eq_nonletter:
  "\<not> is_upper a \<Longrightarrow> ascii_upper c = a \<longleftrightarrow> c = a \<and> \<not> is_lower c"
  using lower_to_upper[of c] by (auto simp: ascii_upper_def)

lemma canonicalize_nonletter:
  "\<not> is_upper a \<Longrightarrow> \<not> is_lower a \<Longrightarrow> canonicalize ic c = canonicalize ic a \<longleftrightarrow> c = a"
  using ascii_upper_eq_nonletter[of a c]
  by (auto simp: canonicalize_def ascii_upper_def)

lemma space_not_letter: "is_space c \<Longrightarrow> \<not> is_lower c \<and> \<not> is_upper c"
  unfolding is_space_def is_lower_def is_upper_def
  by (elim disjE conjE) (simp_all add: word_le_nat_alt)

lemma space_canonical: "is_space c \<Longrightarrow> canonicalize ic c = c"
  using space_not_letter[of c] by (simp add: canonicalize_def ascii_upper_def)

lemma canonical_letter:
  assumes "is_lower a \<or> is_upper a" and "canonicalize True c = canonicalize True a"
  shows "is_lower c \<or> is_upper c"
proof (rule ccontr)
  assume n: "\<not> (is_lower c \<or> is_upper c)"
  then have "canonicalize True c = c" by (simp add: canonicalize_def ascii_upper_def)
  moreover have "is_upper (canonicalize True a)"
    using assms(1) lower_to_upper[of a] by (auto simp: canonicalize_def ascii_upper_def)
  ultimately show False using assms(2) n by simp
qed

lemma not_comma_lf:
  "cls_match True True [CChr (ch CHR '',''), CChr LF] = (\<lambda>c. c \<noteq> ch CHR '','' \<and> c \<noteq> LF)"
proof
  fix c
  have "\<not> is_upper (ch CHR '','')" "\<not> is_lower (ch CHR '','')" "\<not> is_upper LF" "\<not> is_lower LF"
    by (simp_all add: ch_def LF_def is_upper_def is_lower_def)
  then show "cls_match True True [CChr (ch CHR '',''), CChr LF] c = (c \<noteq> ch CHR '','' \<and> c \<noteq> LF)"
    by (simp add: cls_match_def canonicalize_nonletter)
qed

lemma not_slash_dot:
  "cls_match False True [CChr (ch CHR ''/''), CChr (ch CHR ''.'')] =
     (\<lambda>x. x \<noteq> ch CHR ''/'' \<and> x \<noteq> ch CHR ''.'')"
  by (auto simp: cls_match_def canonicalize_def)

lemma sep_class: "cls_match True False [CChr (ch CHR '':''), CSpace] = is_sep"
proof
  fix c
  have "\<not> is_upper (ch CHR '':'')" "\<not> is_lower (ch CHR '':'')"
    by (simp_all add: ch_def is_upper_def is_lower_def)
  then show "cls_match True False [CChr (ch CHR '':''), CSpace] c = is_sep c"
    by (simp add: cls_match_def is_sep_def canonicalize_nonletter)
qed

lemma not_lf_class: "cls_match True True [CChr LF] = (\<lambda>c. c \<noteq> LF)"
proof
  fix c
  have "\<not> is_upper LF" "\<not> is_lower LF"
    by (simp_all add: LF_def is_upper_def is_lower_def)
  then show "cls_match True True [CChr LF] c = (c \<noteq> LF)"
    by (simp add: cls_match_def canonicalize_nonletter)
qed

lemma space_class: "cls_match False False [CSpace] = is_space"
  by (rule ext) (simp add: cls_match_def)

lemma trim_nonempty: "s \<noteq> [] \<Longrightarrow> \<not> is_space (hd s) \<Longrightarrow> trim s \<noteq> []"
proof -
  assume s: "s \<noteq> []" and h: "\<not> is_space (hd s)"
  then have "dropWhile is_space s = s" by (cases s) simp_all
  moreover have "dropWhile is_space (rev s) \<noteq> []"
    using s h by (auto simp: dropWhile_eq_Nil_conv)
  ultimately show ?thesis by (simp add: trim_def)
qed

lemma strip_left_dropWhile: "strip_left s = dropWhile is_space s"
  by (induction s) simp_all

lemma strip_right_rev: "strip_right s = rev (dropWhile is_space (rev s))"
proof (induction s)
  case Nil
  show ?case by simp
next
  case (Cons c cs)
  show ?case
  proof (cases "list_all is_space cs")
    case True
    then have "dropWhile is_space (rev cs) = []"
      by (simp add: dropWhile_eq_Nil_conv list_all_iff)
    moreover from True have "dropWhile is_space (rev cs @ [c]) = dropWhile is_space [c]"
      by (simp add: dropWhile_append list_all_iff)
    ultimately show ?thesis using True Cons by simp
  next
    case False
    then have "dropWhile is_space (rev cs @ [c]) = dropWhile is_space (rev cs) @ [c]"
      by (auto simp: dropWhile_append list_all_iff)
    with False Cons show ?thesis by simp
  qed
qed

lemma trim_strip: "trim s = strip s"
  by (simp add: trim_def strip_def strip_left_dropWhile strip_right_rev)

lemma lower_letters:
  assumes "is_lower c"
  shows "c \<in> set (js ''abcdefghijklmnopqrstuvwxyz'')"
proof -
  from assms have "97 \<le> unat c" "unat c \<le> 122"
    by (simp_all add: is_lower_def word_le_nat_alt)
  then have "unat c \<in> {97..<123}" by simp
  then have "unat c \<in> set [97..<123]" by (simp only: set_upt)
  then have "(of_nat (unat c) :: jschar) \<in> of_nat ` set [97..<123]" by (rule imageI)
  then show ?thesis by (simp add: js_def)
qed

lemma upper_letters:
  assumes "is_upper c"
  shows "c \<in> set (js ''ABCDEFGHIJKLMNOPQRSTUVWXYZ'')"
proof -
  from assms have "65 \<le> unat c" "unat c \<le> 90"
    by (simp_all add: is_upper_def word_le_nat_alt)
  then have "unat c \<in> {65..<91}" by simp
  then have "unat c \<in> set [65..<91]" by (simp only: set_upt)
  then have "(of_nat (unat c) :: jschar) \<in> of_nat ` set [65..<91]" by (rule imageI)
  then show ?thesis by (simp add: js_def)
qed

lemma upper_letter_ascii: "upper_letter c = ascii_upper c"
proof (cases "is_lower c")
  case True
  from lower_letters[OF this] show ?thesis
    by (auto simp: upper_letter_def letter_pairs_def js_def ascii_upper_def is_lower_def)
next
  case False
  then have "map_of letter_pairs c = None"
    by (auto simp: letter_pairs_def js_def is_lower_def map_of_eq_None_iff)
  with False show ?thesis by (simp add: upper_letter_def ascii_upper_def)
qed

lemma lower_letter_ascii: "lower_letter c = ascii_lower c"
proof (cases "is_upper c")
  case True
  from upper_letters[OF this] show ?thesis
    by (auto simp: lower_letter_def letter_pairs_def js_def ascii_lower_def is_upper_def)
next
  case False
  then have "map_of (map prod.swap letter_pairs) c = None"
    by (auto simp: letter_pairs_def js_def is_upper_def map_of_eq_None_iff)
  with False show ?thesis by (simp add: lower_letter_def ascii_lower_def)
qed

lemma toUpperCase_spec: "toUpperCase T s = upper_case T s"
  by (simp add: toUpperCase_def upper_case_def upper_letter_ascii)

lemma toLowerCase_spec: "toLowerCase T s = lower_case T s"
  by (simp add: toLowerCase_def lower_case_def lower_letter_ascii)

subsection \<open>Closed forms of sub-patterns\<close>

lemma advance_0: "advance st 0 = st"
  by (cases st) (simp add: advance_def)

lemma advance_step:
  "advance (MState (Some c) s cs) k = advance (MState p (c # s) cs) (Suc k)"
  by (cases k) (simp_all add: advance_def)

lemma advance_advance:
  "a \<le> length (rest st) \<Longrightarrow> advance (advance st a) b = advance st (a + b)"
  by (cases b) (auto simp: advance_def add.commute)

lemma rmatch_Cls:
  "rmatch ic (Cls neg items) (MState p s cs) =
     (case s of [] \<Rightarrow> [] | c # r \<Rightarrow> if cls_match ic neg items c then [MState (Some c) r cs] else [])"
  by (simp add: rmatch_basic split: list.splits)

lemma concat_map_Eps: "concat (map (rmatch ic Eps) xs) = xs"
  by (induction xs) (simp_all add: rmatch_basic)

lemma rep_cls_greedy:
  assumes "case mx of None \<Rightarrow> True | Some m \<Rightarrow> mn \<le> m"
  shows "rmatch ic (Rep (Cls neg items) mn mx True) (MState p s cs) =
     map (advance (MState p s cs))
       (rev [mn ..< Suc (case mx of None \<Rightarrow> length (takeWhile (cls_match ic neg items) s)
                          | Some m \<Rightarrow> min m (length (takeWhile (cls_match ic neg items) s)))])"
  using assms
proof (induction s arbitrary: mn mx p)
  case Nil
  show ?case
  proof (cases "mx = Some 0")
    case True
    with Nil show ?thesis by (simp add: rmatch_Rep advance_0)
  next
    case False
    then show ?thesis
      by (cases mx) (auto simp: rmatch_Rep rmatch_Cls Let_def advance_0)
  qed
next
  case (Cons c s)
  let ?P = "cls_match ic neg items"
  show ?case
  proof (cases "mx = Some 0")
    case True
    with Cons.prems show ?thesis by (simp add: rmatch_Rep advance_0)
  next
    case nz: False
    show ?thesis
    proof (cases "?P c")
      case False
      with nz show ?thesis
        by (cases mx) (auto simp: rmatch_Rep rmatch_Cls Let_def advance_0)
    next
      case True
      define mx' where "mx' = map_option (\<lambda>k. k - 1) mx"
      define K' where "K' = (case mx' of None \<Rightarrow> length (takeWhile ?P s)
                 | Some m \<Rightarrow> min m (length (takeWhile ?P s)))"
      define more where "more = rmatch ic (Rep (Cls neg items) (mn - 1) mx' True) (MState (Some c) s cs)"
      let ?st = "MState p (c # s) cs"
      have pre: "case mx' of None \<Rightarrow> True | Some m \<Rightarrow> mn - 1 \<le> m"
        using Cons.prems by (cases mx) (auto simp: mx'_def)
      have "more = map (advance (MState (Some c) s cs)) (rev [mn - 1 ..< Suc K'])"
        unfolding more_def K'_def by (rule Cons.IH[OF pre])
      also have "\<dots> = map (advance ?st) (map Suc (rev [mn - 1 ..< Suc K']))"
        by (simp add: advance_step[of c s cs _ p])
      also have "map Suc (rev [mn - 1 ..< Suc K']) = rev [Suc (mn - 1) ..< Suc (Suc K')]"
        by (simp only: rev_map[symmetric] map_Suc_upt)
      finally have more: "more = map (advance ?st) (rev [Suc (mn - 1) ..< Suc (Suc K')])" .
      have K: "(case mx of None \<Rightarrow> length (takeWhile ?P (c # s))
                 | Some m \<Rightarrow> min m (length (takeWhile ?P (c # s)))) = Suc K'"
        using True nz by (cases mx) (auto simp: K'_def mx'_def)
      have unfold: "rmatch ic (Rep (Cls neg items) mn mx True) ?st =
          (if 0 < mn then more else more @ [?st])"
        using True nz
        by (simp add: rmatch_Rep[of ic "Cls neg items" mn mx True ?st]
            rmatch_Cls Let_def more_def mx'_def)
      show ?thesis
      proof (cases "0 < mn")
        case True
        then have "Suc (mn - 1) = mn" by simp
        with True unfold more show ?thesis by (simp only: K if_True)
      next
        case False
        then have mn0: "mn = 0" by simp
        have "rev [0 ..< Suc (Suc K')] = rev [Suc 0 ..< Suc (Suc K')] @ [0]"
          by (simp add: upt_rec[of 0] del: upt_Suc)
        then have "map (advance ?st) (rev [0 ..< Suc (Suc K')])
            = map (advance ?st) (rev [Suc 0 ..< Suc (Suc K')]) @ [?st]"
          by (simp only: map_append list.map advance_0)
        with mn0 unfold more show ?thesis by (simp only: K) simp
      qed
    qed
  qed
qed

lemma rmatch_seqs_Cons:
  "rmatch ic (seqs (r # rs)) st = concat (map (rmatch ic (seqs rs)) (rmatch ic r st))"
  by (cases rs) (simp_all add: rmatch_basic concat_map_Eps)

lemma rmatch_alts_Cons:
  "rs \<noteq> [] \<Longrightarrow> rmatch ic (alts (r # rs)) st = rmatch ic r st @ rmatch ic (alts rs) st"
  by (cases rs) (simp_all add: rmatch_basic)

lemma ci_prefix_append:
  "ci_prefix ic (u @ v) s \<longleftrightarrow> ci_prefix ic u s \<and> ci_prefix ic v (drop (length u) s)"
proof -
  have "take (length u + length v) s = take (length u) s @ take (length v) (drop (length u) s)"
    by (simp add: take_add)
  then show ?thesis
    by (auto simp: ci_prefix_def)
qed

lemma ci_prefix_length: "ci_prefix ic w s \<Longrightarrow> length w \<le> length s"
  by (simp add: ci_prefix_def)

lemma ci_prefix_take: "ci_prefix ic w s \<Longrightarrow> length w \<le> n \<Longrightarrow> ci_prefix ic w (take n s)"
  by (auto simp: ci_prefix_def min_def)

lemma ci_prefix_comparable:
  assumes "ci_prefix ic w s" and "ci_prefix ic w' s" and "length w \<le> length w'"
  shows "take (length w) (map (canonicalize ic) w') = map (canonicalize ic) w"
proof -
  from assms(2) have "map (canonicalize ic) w' = map (canonicalize ic) (take (length w') s)"
    by (simp add: ci_prefix_def)
  then have "take (length w) (map (canonicalize ic) w') = map (canonicalize ic) (take (length w) s)"
    using assms(3) by (simp add: take_map min_def)
  with assms(1) show ?thesis by (simp add: ci_prefix_def)
qed

lemma rmatch_chars:
  "w \<noteq> [] \<Longrightarrow> rmatch ic (seqs (map Chr w)) (MState p s cs) =
     (if ci_prefix ic w s then [advance (MState p s cs) (length w)] else [])"
proof (induction w arbitrary: p s)
  case Nil
  then show ?case by simp
next
  case (Cons a w)
  show ?case
  proof (cases s)
    case Nil
    then show ?thesis
      by (simp add: rmatch_seqs_Cons rmatch_basic ci_prefix_def)
  next
    case (Cons c r)
    show ?thesis
    proof (cases "w = []")
      case True
      with Cons show ?thesis
        by (auto simp: rmatch_basic ci_prefix_def advance_def)
    next
      case False
      have "ci_prefix ic (a # w) (c # r) \<longleftrightarrow> canonicalize ic c = canonicalize ic a \<and> ci_prefix ic w r"
        by (auto simp: ci_prefix_def)
      moreover have "advance (MState (Some c) r cs) (length w) = advance (MState p (c # r) cs) (length (a # w))"
        by (simp add: advance_step[of c r cs _ p])
      ultimately show ?thesis
        using Cons Cons.IH[OF False, of "Some c" r]
        by (simp add: rmatch_seqs_Cons rmatch_basic)
    qed
  qed
qed

lemma rmatch_lit:
  "s0 \<noteq> [] \<Longrightarrow> rmatch ic (lit s0) (MState p s cs) =
     (if ci_prefix ic (js s0) s then [advance (MState p s cs) (length s0)] else [])"
  using rmatch_chars[of "js s0" ic p s cs] by (simp add: lit_def js_def)

lemma rmatch_alts_chars:
  "ws \<noteq> [] \<Longrightarrow> \<forall>w\<in>set ws. w \<noteq> [] \<Longrightarrow>
   rmatch ic (alts (map (\<lambda>w. seqs (map Chr w)) ws)) (MState p s cs) =
     concat (map (\<lambda>w. if ci_prefix ic w s then [advance (MState p s cs) (length w)] else []) ws)"
proof (induction ws)
  case Nil
  then show ?case by simp
next
  case (Cons w ws)
  show ?case
  proof (cases "ws = []")
    case True
    with Cons.prems show ?thesis by (simp add: rmatch_chars)
  next
    case False
    with Cons.prems have "rmatch ic (alts (map (\<lambda>w. seqs (map Chr w)) (w # ws))) (MState p s cs)
        = rmatch ic (seqs (map Chr w)) (MState p s cs)
          @ rmatch ic (alts (map (\<lambda>w. seqs (map Chr w)) ws)) (MState p s cs)"
      by (simp only: list.map rmatch_alts_Cons map_is_Nil_conv not_False_eq_True)
    with Cons False show ?thesis by (simp add: rmatch_chars)
  qed
qed

lemma rmatch_Rep0: "rmatch ic (Rep r mn (Some 0) g) = (\<lambda>st. [st])"
  by (rule ext) (simp add: rmatch_Rep)

lemma rmatch_opt:
  "rmatch ic (opt r) st =
     filter (\<lambda>st'. length (rest st') < length (rest st)) (rmatch ic r st) @ [st]"
proof -
  have "rmatch ic (Rep r 0 (Some 1) True) st =
      concat (map (rmatch ic (Rep r 0 (Some 0) True))
                  (filter (\<lambda>st'. length (rest st') < length (rest st)) (rmatch ic r st))) @ [st]"
    by (subst rmatch_Rep) (simp add: Let_def)
  then show ?thesis
    by (simp add: opt_def rmatch_Rep0)
qed

lemma rmatch_opt_lit:
  assumes "w \<noteq> []"
  shows "rmatch ic (opt (lit w)) (MState p s cs) =
     (if ci_prefix ic (js w) s then [advance (MState p s cs) (length w)] else []) @ [MState p s cs]"
proof (cases "ci_prefix ic (js w) s")
  case True
  with assms have "0 < length w" "length w \<le> length s" by (auto simp: ci_prefix_def js_def)
  then have "length s - length w < length s" by linarith
  with True assms show ?thesis
    by (simp add: rmatch_opt rmatch_lit advance_def)
next
  case False
  with assms show ?thesis by (simp add: rmatch_opt rmatch_lit)
qed

lemma rmatch_lit_adv:
  assumes "w \<noteq> []"
  shows "rmatch ic (lit w) (advance st k) =
     (if ci_prefix ic (js w) (drop k (rest st)) then [advance st (k + length w)] else [])"
proof -
  obtain p s cs where st: "advance st k = MState p s cs" by (cases "advance st k")
  then have s: "s = drop k (rest st)" by (simp add: advance_def)
  show ?thesis
  proof (cases "k \<le> length (rest st)")
    case True
    from advance_advance[OF True, of "length w"] st
    have "advance (MState p s cs) (length w) = advance st (k + length w)" by simp
    with assms show ?thesis unfolding st by (simp add: rmatch_lit s)
  next
    case False
    with assms have "\<not> ci_prefix ic (js w) (drop k (rest st))"
      by (simp add: ci_prefix_def js_def)
    with assms show ?thesis unfolding st by (simp add: rmatch_lit s)
  qed
qed

lemma rmatch_opt_lit_adv:
  assumes "w \<noteq> []"
  shows "rmatch ic (opt (lit w)) (advance st k) =
     (if ci_prefix ic (js w) (drop k (rest st)) then [advance st (k + length w)] else [])
     @ [advance st k]"
proof -
  obtain p s cs where st: "advance st k = MState p s cs" by (cases "advance st k")
  then have s: "s = drop k (rest st)" by (simp add: advance_def)
  show ?thesis
  proof (cases "k \<le> length (rest st)")
    case True
    from advance_advance[OF True, of "length w"] st
    have "advance (MState p s cs) (length w) = advance st (k + length w)" by simp
    with assms show ?thesis unfolding st by (simp add: rmatch_opt_lit s)
  next
    case False
    with assms have "\<not> ci_prefix ic (js w) (drop k (rest st))"
      by (simp add: ci_prefix_def js_def)
    with assms show ?thesis unfolding st by (simp add: rmatch_opt_lit s)
  qed
qed

lemma concat_map_if: "concat (map f (if c then [x] else [])) = (if c then f x else [])"
  by simp

lemma if_append_Nil: "(if a then xs @ ys else []) = (if a then xs else []) @ (if a then ys else [])"
  by simp

lemma if_if_Nil: "(if a then (if b then xs else []) else []) = (if a \<and> b then xs else [])"
  by simp

lemma concat_single:
  assumes "distinct ws" and "w0 \<in> set ws" and "P w0" and "\<forall>w\<in>set ws. w \<noteq> w0 \<longrightarrow> \<not> P w"
  shows "concat (map (\<lambda>w. if P w then f w else []) ws) = f w0"
  using assms
proof (induction ws)
  case Nil
  then show ?case by simp
next
  case (Cons v ws)
  show ?case
  proof (cases "v = w0")
    case True
    with Cons.prems have "\<forall>w\<in>set ws. \<not> P w" by auto
    then have "concat (map (\<lambda>w. if P w then f w else []) ws) = []" by (induction ws) auto
    with True Cons.prems show ?thesis by simp
  next
    case False
    with Cons show ?thesis by auto
  qed
qed

lemma rmatch_Eol_advance:
  "rmatch ic Eol (advance (MState p s cs) k) =
     (if length s \<le> k then [advance (MState p s cs) k] else [])"
  by (simp add: rmatch_basic advance_def)

lemma concat_upto_end:
  "n \<le> m \<Longrightarrow>
   concat (map (\<lambda>k. if m \<le> k then [f k] else []) (rev [Suc 0 ..< Suc n]))
     = (if n = m \<and> 0 < m then [f m] else [])"
  by (induction n) auto

lemma takeWhile_all: "length (takeWhile P xs) = length xs \<longleftrightarrow> list_all P xs"
  by (induction xs) (auto simp: le_imp_less_Suc[OF length_takeWhile_le] dest!: sym[of "Suc _"])

section \<open>The extractor returns a full result\<close>

lemma extractFallback_steps:
  "extractFallback T text (Some filename) =
     do { title \<leftarrow> title_step T text filename;
          summary \<leftarrow> summary_step text;
          objectives \<leftarrow> objectives_step text;
          Some (result_object title (year_step text) summary objectives (agencies_step text)) }"
  unfolding extractFallback_def title_step_def summary_step_def objectives_step_def
    year_step_def agencies_step_def result_object_def title_of_filename_def first_paragraph_def
    collapse_spaces_def default_summary_def default_objectives_def default_agencies_def
    extRe_def hyphenRe_def camelRe_def titleRe_def yearRe_def summaryRe_def objectivesRe_def
    agencyRe_def spacesRe_def paraRe_def Let_def
  by (simp cong: option.case_cong)

lemma extractLegislationFallback_steps:
  "extractLegislationFallback T text (Some filename) =
     do { title \<leftarrow> title_step T text filename;
          summary \<leftarrow> summary_step text;
          objectives \<leftarrow> objectives_step text;
          Some (result_object title (year_step text) summary objectives (agencies_step text)
                @ [(''_method'', js ''fallback'')]) }"
  unfolding extractLegislationFallback_def title_step_def summary_step_def objectives_step_def
    year_step_def agencies_step_def result_object_def title_of_filename_def first_paragraph_def
    collapse_spaces_def default_summary_def default_objectives_def default_agencies_def
    extRe_def hyphenRe_def camelRe_def titleRe_def yearRe_def summaryRe_def objectivesRe_def
    agencyRe_def spacesRe_def paraRe_def Let_def
  by (simp cong: option.case_cong)

lemma extractFallback_default_filename:
  "extractFallback T text None = extractFallback T text (Some (js ''document.txt''))"
  unfolding extractFallback_def by simp

lemma title_step_total: "title_step T text filename \<noteq> None"
proof -
  have "sets_group 1 titleRe"
    by (simp add: titleRe_def plus_def)
  then show ?thesis
    unfolding title_step_def by (auto split: option.splits dest: exec_group_set)
qed

lemma summary_step_total: "summary_step text \<noteq> None"
proof -
  have "sets_group 1 summaryRe"
    by (simp add: summaryRe_def)
  moreover have "first_paragraph text \<noteq> None"
    using split_re_para_nonempty[of "substring0 500 text"]
    by (simp add: first_paragraph_def paraRe_def)
  ultimately show ?thesis
    unfolding summary_step_def by (auto split: option.splits dest: exec_group_set)
qed

lemma objectives_step_total: "objectives_step text \<noteq> None"
proof -
  have "sets_group 1 objectivesRe"
    by (simp add: objectivesRe_def)
  then show ?thesis
    unfolding objectives_step_def by (auto split: option.splits dest: exec_group_set)
qed

lemma extractFallback_result:
  "extractFallback T text (Some filename) =
     Some (result_object (the (title_step T text filename)) (year_step text)
             (the (summary_step text)) (the (objectives_step text)) (agencies_step text))"
  using title_step_total[of T "text" filename] summary_step_total[of "text"]
    objectives_step_total[of "text"]
  by (auto simp: extractFallback_steps)

lemma extractLegislationFallback_tagged:
  "extractLegislationFallback T text (Some filename) =
     map_option (\<lambda>obj. obj @ [(''_method'', js ''fallback'')]) (extractFallback T text (Some filename))"
  using title_step_total[of T "text" filename] summary_step_total[of "text"]
    objectives_step_total[of "text"]
  by (auto simp: extractFallback_steps extractLegislationFallback_steps)

lemma field_result_object:
  "field (Some (result_object t y s ob a)) k =
     (if k = ''legislationTitle'' then Some t
      else if k = ''legislationYear'' then Some y
      else if k = ''legislationSummary'' then Some (or_else s default_summary)
      else if k = ''primaryObjectives'' then Some (or_else ob default_objectives)
      else if k = ''implementingAgencies'' then Some (or_else a default_agencies)
      else if k = ''suggestedCountry'' then Some []
      else if k = ''jurisdictionLevel'' then Some (js ''national'')
      else if k = ''parliamentType'' then Some []
      else if k = ''keyProvisions'' then Some []
      else if k = ''reviewClauses'' then Some []
      else None)"
  by (simp add: field_def result_object_def)

lemma field_server_method: "field (extractFallback T text (Some filename)) ''_method'' = None"
  by (simp add: extractFallback_result field_result_object)

lemma field_client:
  "field (extractLegislationFallback T text (Some filename)) k =
     (if k = ''_method'' then Some (js ''fallback'')
      else field (extractFallback T text (Some filename)) k)"
  by (simp add: extractLegislationFallback_tagged extractFallback_result field_def
      result_object_def)

lemma field_title:
  "field (extractFallback T text (Some filename)) ''legislationTitle''
     = Some (the (title_step T text filename))"
  by (simp add: extractFallback_result field_result_object)

lemma field_year:
  "field (extractFallback T text (Some filename)) ''legislationYear'' = Some (year_step text)"
  by (simp add: extractFallback_result field_result_object)

lemma field_summary:
  "field (extractFallback T text (Some filename)) ''legislationSummary''
     = Some (or_else (the (summary_step text)) default_summary)"
  by (simp add: extractFallback_result field_result_object)

lemma field_objectives:
  "field (extractFallback T text (Some filename)) ''primaryObjectives''
     = Some (or_else (the (objectives_step text)) default_objectives)"
  by (simp add: extractFallback_result field_result_object)

lemma field_agencies:
  "field (extractFallback T text (Some filename)) ''implementingAgencies''
     = Some (or_else (agencies_step text) default_agencies)"
  by (simp add: extractFallback_result field_result_object)

text \<open>
  C1 (as amended).  For every text and every filename, both copies of the pattern
  extractor return an object and do not raise.  The result of \<open>extractFallback\<close> holds
  every field of the data model except the provenance marker \<open>_method\<close>, each a string
  (also when the filename is left out and the default applies); the result of
  \<open>extractLegislationFallback\<close> holds all of them, \<open>_method\<close> being \<open>"fallback"\<close>.
\<close>
theorem extractor_total:
  "extractFallback T text (Some filename) \<noteq> None \<and>
   extractLegislationFallback T text (Some filename) \<noteq> None \<and>
   fully_populated extraction_fields (extractFallback T text None) \<and>
   fully_populated extraction_fields (extractFallback T text (Some filename)) \<and>
   fully_populated data_model_fields (extractLegislationFallback T text (Some filename)) \<and>
   field (extractLegislationFallback T text (Some filename)) ''_method'' = Some (js ''fallback'')"
proof -
  have "extractFallback T text (Some filename) \<noteq> None"
    by (simp add: extractFallback_result)
  moreover from this have "extractLegislationFallback T text (Some filename) \<noteq> None"
    by (simp add: extractLegislationFallback_tagged)
  moreover have "fully_populated extraction_fields (extractFallback T text (Some filename))"
    by (simp add: fully_populated_def extraction_fields_def extractFallback_result
        field_result_object)
  moreover have "fully_populated data_model_fields (extractLegislationFallback T text (Some filename))"
    by (simp add: fully_populated_def data_model_fields_def extraction_fields_def field_client)
       (simp add: extractFallback_result field_result_object)
  moreover have "field (extractLegislationFallback T text (Some filename)) ''_method'' = Some (js ''fallback'')"
    by (simp add: field_client)
  moreover have "fully_populated extraction_fields (extractFallback T text None)"
    by (simp add: fully_populated_def extraction_fields_def extractFallback_default_filename
        extractFallback_result field_result_object)
  ultimately show ?thesis by blast
qed

text \<open>The statement at the empty text and the filename \<open>a.txt\<close>.\<close>
theorem extractor_total_witness:
  "fully_populated extraction_fields (extractFallback ascii_casing [] (Some (js ''a.txt''))) \<and>
   fully_populated data_model_fields (extractLegislationFallback ascii_casing [] (Some (js ''a.txt'')))"
  using extractor_total[of ascii_casing "[]" "js ''a.txt''"] by simp

text \<open>
  C1 as stated fails: the object returned by \<open>extractFallback\<close> has no property
  \<open>_method\<close>, which the data model lists.
\<close>
theorem server_result_lacks_method:
  "\<not> fully_populated data_model_fields (extractFallback ascii_casing [] (Some (js ''a.txt'')))"
  by (simp add: fully_populated_def data_model_fields_def field_server_method)

text \<open>
  C3 (as amended).  For every text and filename the client-side copy returns the
  properties of the server-side copy, in the same order and with the same values,
  followed by the one further property \<open>_method: "fallback"\<close>.
\<close>
theorem client_copy_adds_method:
  "extractLegislationFallback T text (Some filename) =
     map_option (\<lambda>obj. obj @ [(''_method'', js ''fallback'')]) (extractFallback T text (Some filename))"
  by (rule extractLegislationFallback_tagged)

text \<open>C3 as stated fails: on the same pair of strings the two results differ.\<close>
theorem copies_differ:
  "extractLegislationFallback ascii_casing [] (Some (js ''a.txt'')) \<noteq>
   extractFallback ascii_casing [] (Some (js ''a.txt''))"
  by (simp add: extractLegislationFallback_tagged extractFallback_result)

section \<open>The endpoint\<close>

lemma extractFallback_call_ok:
  assumes "string_or_absent filename"
  shows "\<exists>d. extractFallback_call T (JString t) filename = Some d \<and> map_of d ''_method'' = None"
proof -
  have "\<exists>d. extractFallback T t (Some f) = Some d \<and> map_of d ''_method'' = None" for f
    using field_server_method[of T t f] by (simp add: extractFallback_result field_def)
  with assms show ?thesis
    by (cases filename)
       (simp_all add: string_or_absent_def extractFallback_call_def
          extractFallback_default_filename)
qed

lemma extractFallback_call_bad_filename:
  "\<not> string_or_absent filename \<Longrightarrow> extractFallback_call T text filename = None"
  by (cases filename) (simp_all add: string_or_absent_def extractFallback_call_def)

lemma extractFallback_call_bad_text:
  "\<not> (\<exists>t. text = JString t) \<Longrightarrow> extractFallback_call T text filename = None"
  by (cases filename; cases "text") (simp_all add: extractFallback_call_def)

lemma fallback_response_ok:
  assumes "string_or_absent filename"
  shows "\<exists>d. extractFallback_call T (JString t) filename = Some d \<and> map_of d ''_method'' = None \<and>
       (fallback_response T (JString t) filename w :: 'j http_response) = Status200 \<lparr>success = True, method_tag = js ''fallback'', data = Extracted d, warning = w\<rparr>"
  using extractFallback_call_ok[OF assms, of T t] by (auto simp: fallback_response_def)

lemma fallback_response_not_400:
  "(fallback_response T text filename w :: 'j http_response) \<noteq> Status400 e"
  by (simp add: fallback_response_def split: option.splits)

text \<open>
  C9.  The endpoint answers with the validation error (status 400) exactly when the
  text of the request is missing (or another falsy value: \<open>null\<close>, \<open>false\<close>, 0, the empty
  string) or is a string shorter than 50 code units after trimming.
\<close>
theorem validation_rejects_short_text:
  "(\<exists>e. extract_endpoint T api_key up parse req = Status400 e) \<longleftrightarrow>
   (\<not> truthy (req_text req) \<or> (\<exists>t. req_text req = JString t \<and> length (trim t) < 50))"
proof (cases "truthy (req_text req)")
  case False
  then show ?thesis by (simp add: extract_endpoint_def)
next
  case True
  note nf = fallback_response_not_400[of T "req_text req" "req_filename req", where 'j = 'a]
  show ?thesis
  proof (cases "\<exists>t. req_text req = JString t")
    case False
    with True nf show ?thesis
      by (cases "req_text req") (simp_all add: extract_endpoint_def)
  next
    case s: True
    then obtain t where t: "req_text req = JString t" ..
    show ?thesis
    proof (cases "length (trim t) < 50")
      case True
      with t \<open>truthy (req_text req)\<close> show ?thesis by (simp add: extract_endpoint_def)
    next
      case False
      with t True nf show ?thesis
        by (auto simp: extract_endpoint_def
            split: upstream.splits reply.splits option.splits sum.splits)
    qed
  qed
qed

text \<open>A text of nine code units is rejected, a text of 71 is not, a missing text is.\<close>
theorem validation_witness:
  "(\<exists>e. extract_endpoint ascii_casing None (FetchRejected []) no_parse
         \<lparr>req_text = JString (js ''too short''), req_filename = JUndefined\<rparr> = Status400 e) \<and>
   \<not> (\<exists>e. extract_endpoint ascii_casing None (FetchRejected []) no_parse
         \<lparr>req_text = JString sample_text, req_filename = JUndefined\<rparr> = Status400 e) \<and>
   (\<exists>e. extract_endpoint ascii_casing None (FetchRejected []) no_parse
         \<lparr>req_text = JUndefined, req_filename = JUndefined\<rparr> = Status400 e)"
  using validation_rejects_short_text[of ascii_casing None "FetchRejected []" no_parse
          "\<lparr>req_text = JString (js ''too short''), req_filename = JUndefined\<rparr>"]
        validation_rejects_short_text[of ascii_casing None "FetchRejected []" no_parse
          "\<lparr>req_text = JString sample_text, req_filename = JUndefined\<rparr>"]
        validation_rejects_short_text[of ascii_casing None "FetchRejected []" no_parse
          "\<lparr>req_text = JUndefined, req_filename = JUndefined\<rparr>"]
  by (simp add: sample_text_def js_def trim_def is_space_def)

text \<open>
  C2 (as amended).  For every request whose text is a string that passes the length
  check and whose filename is a string or is left out, when the model-backed path fails
  (no credential, a rejected call, a response that is not successful, or no parsable
  JSON object in the reply) the endpoint answers with a success envelope whose method is
  \<open>"fallback"\<close> and whose data is what \<open>extractFallback\<close> returns for the same text and
  filename.  The data has no property \<open>_method\<close>: the mark is the envelope's method.
\<close>
theorem ai_failure_falls_back:
  assumes "req_text req = JString t" and "50 \<le> length (trim t)"
    and "string_or_absent (req_filename req)"
    and "ai_path_fails api_key up parse"
  shows "\<exists>d w. extractFallback_call T (req_text req) (req_filename req) = Some d \<and>
           extract_endpoint T api_key up parse req = Status200 \<lparr>success = True, method_tag = js ''fallback'', data = Extracted d, warning = w\<rparr> \<and>
           map_of d ''_method'' = None"
proof -
  from assms(2) have t: "t \<noteq> []" "\<not> length (trim t) < 50" by (auto simp: trim_def)
  from assms(4) have "\<exists>w. extract_endpoint T api_key up parse req
      = fallback_response T (JString t) (req_filename req) w"
    using assms(1) t
    by (auto simp: ai_path_fails_def no_parsable_json_def extract_endpoint_def jsonRe_def
        split: upstream.splits reply.splits option.splits sum.splits)
  then obtain w where "extract_endpoint T api_key up parse req
      = fallback_response T (JString t) (req_filename req) w" ..
  with fallback_response_ok[OF assms(3), of T t w, where 'j = 'a] assms(1) show ?thesis
    by auto
qed

lemma bad_filename_is_unhandled:
  assumes "req_text req = JString t" and "50 \<le> length (trim t)"
    and "\<not> string_or_absent (req_filename req)"
    and "ai_path_fails api_key up parse"
  shows "extract_endpoint T api_key up parse req = Unhandled"
proof -
  from assms(2) have t: "t \<noteq> []" "\<not> length (trim t) < 50" by (auto simp: trim_def)
  from assms(4) have "\<exists>w. extract_endpoint T api_key up parse req
      = fallback_response T (JString t) (req_filename req) w"
    using assms(1) t
    by (auto simp: ai_path_fails_def no_parsable_json_def extract_endpoint_def jsonRe_def
        split: upstream.splits reply.splits option.splits sum.splits)
  with extractFallback_call_bad_filename[OF assms(3), of T "JString t"] show ?thesis
    by (auto simp: fallback_response_def)
qed

lemma bad_text_is_unhandled:
  assumes "truthy (req_text req)" and "\<not> (\<exists>t. req_text req = JString t)"
  shows "extract_endpoint T api_key up parse req = Unhandled"
  using assms extractFallback_call_bad_text[OF assms(2), of T "req_filename req"]
  by (cases "req_text req") (simp_all add: extract_endpoint_def fallback_response_def)

text \<open>The statement for a text of 71 code units when no credential is configured.\<close>
theorem ai_failure_witness:
  "\<exists>d w. extractFallback_call ascii_casing (JString sample_text) JUndefined = Some d \<and>
         extract_endpoint ascii_casing None (FetchRejected []) no_parse
           \<lparr>req_text = JString sample_text, req_filename = JUndefined\<rparr> = Status200 \<lparr>success = True, method_tag = js ''fallback'', data = Extracted d, warning = w\<rparr> \<and>
         map_of d ''_method'' = None"
proof -
  have "50 \<le> length (trim sample_text)"
    by (simp add: sample_text_def js_def trim_def is_space_def)
  moreover have "ai_path_fails None (FetchRejected []) no_parse"
    by (simp add: ai_path_fails_def)
  moreover have "string_or_absent JUndefined"
    by (simp add: string_or_absent_def)
  ultimately show ?thesis
    using ai_failure_falls_back[of "\<lparr>req_text = JString sample_text, req_filename = JUndefined\<rparr>"
        sample_text None "FetchRejected []" no_parse ascii_casing]
    by simp
qed

lemma sample_result:
  "extractFallback ascii_casing sample_text (Some (js ''a.txt'')) =
     Some [(''legislationTitle'', js ''A''),
           (''legislationYear'', []),
           (''legislationSummary'',
              js ''Every person has the right to clean water and to a healthy environment.''),
           (''primaryObjectives'',
              BULLET # js '' To be extracted from the document'' @
              LF # BULLET # js '' Review the full text for specific objectives''),
           (''implementingAgencies'', js ''Relevant government ministries and agencies''),
           (''suggestedCountry'', []),
           (''jurisdictionLevel'', js ''national''),
           (''parliamentType'', []),
           (''keyProvisions'', []),
           (''reviewClauses'', [])]"
  unfolding extractFallback_result
  by (simp add: sample_text_def eval_defs step_defs ascii_casing_def result_object_def
      default_summary_def default_objectives_def default_agencies_def)

lemma sample_text_long: "sample_text \<noteq> [] \<and> \<not> length (trim sample_text) < 50"
  by (simp add: sample_text_def js_def trim_def is_space_def)

text \<open>
  C2 as stated fails.  With no credential configured, the data of the fallback answer
  for a text of 71 code units is the object that \<open>extractFallback\<close> returns, which has
  no property \<open>_method\<close>; when the filename of the request is \<open>null\<close> the extractor raises
  and no envelope is sent; and a text shorter than 50 code units is answered with the
  validation error.
\<close>
theorem fallback_data_is_untagged:
  "extract_endpoint ascii_casing None (FetchRejected []) no_parse
     \<lparr>req_text = JString sample_text, req_filename = JString (js ''a.txt'')\<rparr>
   = Status200
       \<lparr>success = True, method_tag = js ''fallback'',
        data = Extracted
          [(''legislationTitle'', js ''A''),
           (''legislationYear'', []),
           (''legislationSummary'',
              js ''Every person has the right to clean water and to a healthy environment.''),
           (''primaryObjectives'',
              BULLET # js '' To be extracted from the document'' @
              LF # BULLET # js '' Review the full text for specific objectives''),
           (''implementingAgencies'', js ''Relevant government ministries and agencies''),
           (''suggestedCountry'', []),
           (''jurisdictionLevel'', js ''national''),
           (''parliamentType'', []),
           (''keyProvisions'', []),
           (''reviewClauses'', [])],
        warning = None\<rparr> \<and>
   field (response_data
            (extract_endpoint ascii_casing None (FetchRejected []) no_parse
               \<lparr>req_text = JString sample_text, req_filename = JString (js ''a.txt'')\<rparr>))
     ''_method'' = None \<and>
   extract_endpoint ascii_casing None (FetchRejected []) no_parse
     \<lparr>req_text = JString sample_text, req_filename = JNull\<rparr> = Unhandled \<and>
   extract_endpoint ascii_casing None (FetchRejected []) no_parse
     \<lparr>req_text = JString (js ''too short''), req_filename = JUndefined\<rparr>
   = Status400 (js ''Document text is too short for analysis'')"
proof -
  have "js ''too short'' \<noteq> [] \<and> length (trim (js ''too short'')) < 50"
    by (simp add: js_def trim_def is_space_def)
  with sample_text_long show ?thesis
    by (simp add: extract_endpoint_def fallback_response_def extractFallback_call_def
        sample_result response_data_def field_def)
qed

section \<open>The year\<close>

lemma rmatch_yearRe:
  "rmatch False yearRe (MState p s cs0) =
     (if year_here p s then [MState (Some (s ! 3)) (drop 4 s) (set_cap 1 (take 2 s) cs0)] else [])"
proof -
  consider "s = []" | a where "s = [a]" | a b where "s = [a, b]" | a b c where "s = [a, b, c]"
    | a b c d r where "s = a # b # c # d # r"
    by (metis list.exhaust)
  then show ?thesis
  proof cases
    case 5
    then show ?thesis
      by (auto simp: yearRe_def year_here_def lit_def js_def rmatch_basic rmatch_Rep
          canonicalize_def cls_match_def consumed_def is_digit_def at_word_def next_char_def
          is_word_def Let_def)
  qed (auto simp: yearRe_def year_here_def lit_def js_def rmatch_basic rmatch_Rep
          canonicalize_def cls_match_def consumed_def is_digit_def at_word_def next_char_def
          is_word_def Let_def)
qed

lemma yearRe_at:
  assumes "k \<le> length text"
  shows "rmatch False yearRe (state_at [] text k) =
     (if year_at text k
      then [MState (Some (drop k text ! 3)) (drop 4 (drop k text)) (set_cap 1 (take 2 (drop k text)) [])]
      else [])"
  using assms by (simp add: state_at_Nil rmatch_yearRe year_at_def)

lemma year_here_length: "year_here p s \<Longrightarrow> 4 \<le> length s"
  by (auto simp: year_here_def split: list.splits)

lemma year_step_none:
  assumes "\<forall>k. \<not> year_at text k"
  shows "year_step text = []"
proof -
  have "exec_from False yearRe [] text = None"
    unfolding exec_from_None_iff using assms by (simp add: yearRe_at)
  then show ?thesis by (simp add: year_step_def exec_def)
qed

lemma year_step_first:
  assumes "year_at text k" and "\<forall>j<k. \<not> year_at text j"
  shows "year_step text = take 4 (drop k text)"
proof -
  from assms(1) have kl: "k \<le> length text" and len: "4 \<le> length (drop k text)"
    by (auto simp: year_at_def dest: year_here_length)
  have "exec_from False yearRe [] text \<noteq> None"
    unfolding exec_from_None_iff using assms(1) kl by (auto simp: yearRe_at)
  then obtain m where m: "exec_from False yearRe [] text = Some m" by blast
  from exec_from_SomeD[OF m] obtain k' st sts where k': "k' \<le> length text"
    "\<forall>j<k'. rmatch False yearRe (state_at [] text j) = []"
    "rmatch False yearRe (state_at [] text k') = st # sts"
    "m = Match (rev [] @ take k' text) (consumed (drop k' text) st) (rest st) (caps st)"
    by blast
  from k'(1,3) have yk': "year_at text k'"
    by (auto simp: yearRe_at split: if_splits)
  have "k' = k"
  proof (rule ccontr)
    assume "k' \<noteq> k"
    then consider "k' < k" | "k < k'" by linarith
    then show False
    proof cases
      case 1
      with assms(2) yk' show False by blast
    next
      case 2
      with k'(2) have "rmatch False yearRe (state_at [] text k) = []" by blast
      with assms(1) kl show False by (simp add: yearRe_at)
    qed
  qed
  with k'(3) kl assms(1) have "rest st = drop 4 (drop k text)"
    by (auto simp: yearRe_at)
  with len have "consumed (drop k text) st = take 4 (drop k text)"
    by (simp add: consumed_def)
  with k'(4) \<open>k' = k\<close> m show ?thesis
    by (simp add: year_step_def exec_def)
qed

lemma year_step_1998:
  "year_step (js ''The Act was enacted in 1998 under the old code'') = js ''1998''"
  by (simp add: eval_defs step_defs)

lemma year_step_1999A: "year_step (js ''in room 1999A'') = []"
  by (simp add: eval_defs step_defs)

text \<open>
  C4 (as amended).  In the result of either copy, \<open>legislationYear\<close> is the first year
  token of the text: four digits beginning with 19 or 20 with no word character directly
  before or after.  A text without such a token yields the empty string.  A text with
  \<open>enacted in 1998 under\<close> yields \<open>1998\<close>; the text \<open>in room 1999A\<close> yields the empty
  string, since the letter after the digits leaves no word boundary.
\<close>
theorem year_is_first_token:
  "(\<forall>r \<in> {extractFallback T text (Some filename), extractLegislationFallback T text (Some filename)}.
     (\<forall>k. year_at text k \<and> (\<forall>j<k. \<not> year_at text j) \<longrightarrow>
          field r ''legislationYear'' = Some (take 4 (drop k text))) \<and>
     ((\<forall>k. \<not> year_at text k) \<longrightarrow> field r ''legislationYear'' = Some [])) \<and>
   field (extractFallback T (js ''The Act was enacted in 1998 under the old code'') (Some filename))
     ''legislationYear'' = Some (js ''1998'') \<and>
   field (extractFallback T (js ''in room 1999A'') (Some filename)) ''legislationYear'' = Some []"
  by (auto simp: field_client field_year year_step_first year_step_none year_step_1998
      year_step_1999A)

text \<open>The text \<open>in 1998\<close> has its first year token at position 3.\<close>
theorem year_is_first_token_witness:
  "year_at (js ''in 1998'') 3 \<and> \<not> year_at (js ''in 1998'') 0 \<and> \<not> year_at (js ''in 1998'') 1 \<and>
   \<not> year_at (js ''in 1998'') 2 \<and>
   field (extractFallback ascii_casing (js ''in 1998'') (Some (js ''a.txt''))) ''legislationYear''
     = Some (js ''1998'')"
proof -
  have a: "year_at (js ''in 1998'') 3"
    by (simp add: year_at_def year_here_def prev_at_def js_def is_digit_def at_word_def
        next_char_def is_word_def is_upper_def is_lower_def)
  have b: "\<forall>j<3. \<not> year_at (js ''in 1998'') j"
    by (simp add: numeral_3_eq_3 less_Suc_eq year_at_def year_here_def prev_at_def js_def)
  from a b year_is_first_token[of ascii_casing "js ''in 1998''" "js ''a.txt''"]
  have "field (extractFallback ascii_casing (js ''in 1998'') (Some (js ''a.txt'')))
          ''legislationYear'' = Some (take 4 (drop 3 (js ''in 1998'')))"
    by blast
  with a b show ?thesis by (simp add: js_def)
qed

text \<open>
  C4 as stated fails: for the text \<open>in room 1999A\<close> the extracted year is the empty
  string, not \<open>1999\<close>.
\<close>
theorem year_1999A_is_not_extracted:
  "field (extractFallback ascii_casing (js ''in room 1999A'') (Some (js ''a.txt'')))
     ''legislationYear'' \<noteq> Some (js ''1999'')"
proof -
  have "js ''1999'' \<noteq> []" by (simp add: js_def)
  then show ?thesis by (simp add: field_year year_step_1999A)
qed

section \<open>The title\<close>

subsection \<open>From the filename\<close>

lemma rmatch_extRe:
  "rmatch False extRe (MState p s cs) =
     (if ext_here s then [advance (MState p s cs) (length s)] else [])"
proof (cases s)
  case Nil
  then show ?thesis by (simp add: extRe_def ext_here_def rmatch_basic)
next
  case (Cons c r)
  let ?P = "\<lambda>x. x \<noteq> ch CHR ''/'' \<and> x \<noteq> ch CHR ''.''"
  let ?st = "MState (Some c) r cs"
  let ?n = "length (takeWhile ?P r)"
  have run: "rmatch False (plus (Cls True [CChr (ch CHR ''/''), CChr (ch CHR ''.'')])) ?st
      = map (advance ?st) (rev [Suc 0 ..< Suc ?n])"
    unfolding plus_def
    using rep_cls_greedy[where mx = None and mn = 1 and ic = False and neg = True
        and items = "[CChr (ch CHR ''/''), CChr (ch CHR ''.'')]" and p = "Some c" and s = r and cs = cs]
    by (simp add: not_slash_dot del: upt_Suc)
  have "concat (map (rmatch False Eol) (map (advance ?st) (rev [Suc 0 ..< Suc ?n])))
      = concat (map (\<lambda>k. if length r \<le> k then [advance ?st k] else []) (rev [Suc 0 ..< Suc ?n]))"
    by (simp add: rmatch_Eol_advance comp_def del: upt_Suc)
  also have "\<dots> = (if ?n = length r \<and> 0 < length r then [advance ?st (length r)] else [])"
    by (rule concat_upto_end) (rule length_takeWhile_le)
  finally have tail: "concat (map (rmatch False Eol) (rmatch False
        (plus (Cls True [CChr (ch CHR ''/''), CChr (ch CHR ''.'')])) ?st))
      = (if list_all ?P r \<and> r \<noteq> [] then [advance ?st (length r)] else [])"
    by (simp add: run takeWhile_all del: upt_Suc)
  have adv: "advance ?st (length r) = advance (MState p (c # r) cs) (length (c # r))"
    by (simp add: advance_step[of c r cs _ p])
  show ?thesis
  proof (cases "c = ch CHR ''.''")
    case True
    with Cons tail adv show ?thesis
      by (simp add: extRe_def ext_here_def rmatch_basic canonicalize_def conj_commute)
  next
    case False
    with Cons show ?thesis
      by (simp add: extRe_def ext_here_def rmatch_basic canonicalize_def)
  qed
qed

lemma exec_extRe:
  "(case exec_from False extRe bef s of None \<Rightarrow> rev bef @ s
    | Some m \<Rightarrow> before m @ expand [] (groups m) @ after m) = rev bef @ strip_extension s"
proof (induction s arbitrary: bef)
  case Nil
  show ?case
    by (simp add: exec_from.simps[of False extRe bef "[]"] rmatch_extRe ext_here_def)
next
  case (Cons c cs)
  show ?case
  proof (cases "ext_here (c # cs)")
    case True
    then show ?thesis
      by (simp add: exec_from.simps[of False extRe bef "c # cs"] rmatch_extRe advance_def)
  next
    case False
    with Cons[of "c # bef"] show ?thesis
      by (simp add: exec_from.simps[of False extRe bef "c # cs"] rmatch_extRe
          cong: option.case_cong)
  qed
qed

lemma replace_first_extRe: "replace_first False extRe [] s = strip_extension s"
  using exec_extRe[of "[]" s] by (simp add: replace_first_def exec_def cong: option.case_cong)

lemma replace_all_hyphenRe:
  "replace_all_from False hyphenRe [RLit (js '' '')] p s = dashes_to_spaces s"
proof (induction s arbitrary: p)
  case Nil
  show ?case
    by (simp add: replace_all_from.simps[of _ _ _ p "[]"] hyphenRe_def rmatch_basic
        dashes_to_spaces_def)
next
  case (Cons c cs)
  have sp: "js '' '' = [ch CHR '' '']" by (simp add: js_def ch_def)
  show ?case
    using Cons[of "Some c"]
    by (simp add: replace_all_from.simps[of _ _ _ p "c # cs"] hyphenRe_def rmatch_basic
        cls_match_def canonicalize_def dashes_to_spaces_def sp)
qed

lemma split_camel_upper: "\<not> is_lower b \<Longrightarrow> split_camel (b # r) = b # split_camel r"
  by (cases r) simp_all

lemma rmatch_camelRe:
  "rmatch False camelRe (MState p s []) =
     (case s of
        a # b # r \<Rightarrow>
          if is_lower a \<and> is_upper b then [MState (Some b) r [(2, [b]), (1, [a])]] else []
      | _ \<Rightarrow> [])"
proof -
  consider "s = []" | a where "s = [a]" | a b r where "s = a # b # r"
    by (metis list.exhaust)
  then show ?thesis
    by cases
      (auto simp: camelRe_def rmatch_basic cls_match_def canonicalize_def consumed_def
        set_cap_def is_lower_def is_upper_def ch_def)
qed

lemma replace_all_camelRe:
  "replace_all_from False camelRe [RGrp 1, RLit (js '' ''), RGrp 2] p s = split_camel s"
proof (induction s arbitrary: p rule: length_induct)
  case (1 s)
  have sp: "js '' '' = [ch CHR '' '']" by (simp add: js_def ch_def)
  consider "s = []" | a where "s = [a]" | a b r where "s = a # b # r"
    by (metis list.exhaust)
  then show ?case
  proof cases
    case 1
    then show ?thesis
      by (simp add: replace_all_from.simps[of _ _ _ p "[]"] rmatch_camelRe)
  next
    case 2
    then show ?thesis
      by (simp add: replace_all_from.simps[of _ _ _ p "[a]"]
          replace_all_from.simps[of _ _ _ "Some a" "[]"] rmatch_camelRe)
  next
    case 3
    show ?thesis
    proof (cases "is_lower a \<and> is_upper b")
      case True
      from "1.IH" 3 have "replace_all_from False camelRe [RGrp 1, RLit (js '' ''), RGrp 2] (Some b) r
          = split_camel r"
        by simp
      moreover from True have "rmatch False camelRe (MState p (a # b # r) [])
          = [MState (Some b) r [(2, [b]), (1, [a])]]"
        by (simp add: rmatch_camelRe)
      moreover from True have "split_camel (a # b # r) = a # ch CHR '' '' # b # split_camel r"
        by (simp add: split_camel_upper upper_not_lower)
      ultimately show ?thesis
        unfolding 3 by (simp add: replace_all_from.simps[of _ _ _ p "a # b # r"] sp)
    next
      case False
      from "1.IH" 3 have "replace_all_from False camelRe [RGrp 1, RLit (js '' ''), RGrp 2] (Some a) (b # r)
          = split_camel (b # r)"
        by simp
      moreover from False have "rmatch False camelRe (MState p (a # b # r) []) = []"
        by (simp add: rmatch_camelRe)
      moreover from False have "split_camel (a # b # r) = a # split_camel (b # r)"
        by simp
      ultimately show ?thesis
        unfolding 3 by (simp only: replace_all_from.simps[of _ _ _ p "a # b # r"] list.case)
    qed
  qed
qed

lemma title_of_filename_spec: "title_of_filename T filename = spec_title T filename"
  unfolding title_of_filename_def spec_title_def replace_first_extRe replace_all_def
      replace_all_hyphenRe replace_all_camelRe capitalize_def charAt0_def slice1_def
      toUpperCase_spec toLowerCase_spec
  by (rule refl)

lemmas spec_title_defs =
  spec_title_def ext_here_def dashes_to_spaces_def capitalize_def upper_case_def lower_case_def
  upper_letter_def lower_letter_def letter_pairs_def js_def ch_def is_ascii_def is_lower_def
  is_upper_def

lemma community_title:
  "spec_title T (js ''community-empowermentAct.txt'') = js ''Community Empowerment Act''"
  by (simp add: spec_title_defs)

lemma my_file_title:
  "spec_title T (js ''my-FILE.txt'') = js ''My File''"
  by (simp add: spec_title_defs)

subsection \<open>From a title line\<close>

lemma rmatch_titleKw:
  "rmatch True titleKw st =
     concat (map (\<lambda>w. if ci_prefix True w (rest st) then [advance st (length w)] else [])
       title_keywords)"
proof -
  have ne: "''A'' \<noteq> []" "''N'' \<noteq> []" "'' '' \<noteq> []" "''ACT'' \<noteq> []" "''BILL'' \<noteq> []"
    "''LAW'' \<noteq> []" "''TITLE'' \<noteq> []"
    by simp_all
  have words: "js ''AN ACT'' = js ''A'' @ js ''N'' @ js '' '' @ js ''ACT''"
    "js ''AN BILL'' = js ''A'' @ js ''N'' @ js '' '' @ js ''BILL''"
    "js ''AN LAW'' = js ''A'' @ js ''N'' @ js '' '' @ js ''LAW''"
    "js ''A ACT'' = js ''A'' @ js '' '' @ js ''ACT''"
    "js ''A BILL'' = js ''A'' @ js '' '' @ js ''BILL''"
    "js ''A LAW'' = js ''A'' @ js '' '' @ js ''LAW''"
    by (simp_all add: js_def)
  have len: "length (js w) = length w" for w by (simp add: js_def)
  have lhs: "rmatch True titleKw (advance st 0) =
      concat (map (\<lambda>w. if ci_prefix True w (rest st) then [advance st (length w)] else [])
       title_keywords)"
    unfolding titleKw_def title_keywords_def words
    by (simp add: rmatch_alts_Cons rmatch_seqs_Cons rmatch_basic rmatch_lit_adv[OF ne(1)]
        rmatch_lit_adv[OF ne(3)] rmatch_lit_adv[OF ne(4)] rmatch_lit_adv[OF ne(5)]
        rmatch_lit_adv[OF ne(6)] rmatch_lit_adv[OF ne(7)] rmatch_opt_lit_adv[OF ne(2)]
        concat_map_if if_append_Nil if_if_Nil ci_prefix_append len conj_assoc
        split del: if_split cong: if_cong)
  then show ?thesis by (simp add: advance_0)
qed

lemma titleKw_member:
  assumes "st1 \<in> set (rmatch True titleKw st)"
  shows "\<exists>w\<in>set title_keywords. ci_prefix True w (rest st) \<and> st1 = advance st (length w)"
  using assms unfolding rmatch_titleKw by (auto split: if_splits)

lemma rmatch_seps:
  "rmatch True (plus (Cls False [CChr (ch CHR '':''), CSpace])) (MState p s cs) =
     map (advance (MState p s cs)) (rev [Suc 0 ..< Suc (length (takeWhile is_sep s))])"
  unfolding plus_def
  using rep_cls_greedy[where mx = None and mn = 1 and ic = True and neg = False
      and items = "[CChr (ch CHR '':''), CSpace]" and p = p and s = s and cs = cs]
  by (simp add: sep_class del: upt_Suc)

lemma rmatch_line_body:
  "rmatch True (plus (Cls True [CChr LF])) (MState p s cs) =
     map (advance (MState p s cs)) (rev [Suc 0 ..< Suc (length (takeWhile (\<lambda>c. c \<noteq> LF) s))])"
  unfolding plus_def
  using rep_cls_greedy[where mx = None and mn = 1 and ic = True and neg = True
      and items = "[CChr LF]" and p = p and s = s and cs = cs]
  by (simp add: not_lf_class del: upt_Suc)

lemma titleTail_needs_sep:
  assumes "rmatch True titleTail (MState p s cs) \<noteq> []"
  shows "s \<noteq> [] \<and> is_sep (hd s)"
proof (rule ccontr)
  assume "\<not> (s \<noteq> [] \<and> is_sep (hd s))"
  then have "takeWhile is_sep s = []" by (cases s) auto
  then have "rmatch True (plus (Cls False [CChr (ch CHR '':''), CSpace])) (MState p s cs) = []"
    by (simp add: rmatch_seps)
  then have "rmatch True titleTail (MState p s cs) = []"
    by (simp add: titleTail_def rmatch_basic)
  with assms show False by simp
qed

lemma titleTail_head:
  assumes "seps \<noteq> []" and "list_all is_sep seps"
    and "body \<noteq> []" and "\<not> is_sep (hd body)" and "LF \<notin> set body"
    and "post = [] \<or> hd post = LF"
  shows "\<exists>st sts. rmatch True titleTail (MState p (seps @ body @ post) []) = st # sts \<and>
           caps st = [(1, body)]"
proof -
  let ?s = "seps @ body @ post"
  let ?st = "MState p ?s []"
  have "takeWhile is_sep ?s = seps"
    using assms(2,3,4) by (cases body) (simp_all add: list_all_iff takeWhile_append2)
  then have n: "length (takeWhile is_sep ?s) = length seps" by simp
  from assms(1) obtain n' where n': "length seps = Suc n'" by (cases seps) auto
  have seps_run: "rmatch True (plus (Cls False [CChr (ch CHR '':''), CSpace])) ?st =
      advance ?st (length seps) # map (advance ?st) (rev [Suc 0 ..< length seps])"
    unfolding rmatch_seps n by (simp add: n')
  have st2: "advance ?st (length seps) = MState (Some (last seps)) (body @ post) []"
    using assms(1) by (simp add: advance_def nth_append last_conv_nth)
  have "takeWhile (\<lambda>c. c \<noteq> LF) (body @ post) = body"
  proof (cases post)
    case Nil
    with assms(5) show ?thesis by (simp add: takeWhile_eq_all_conv) blast
  next
    case (Cons c cs)
    with assms(6) have "c = LF" by simp
    with Cons assms(5) show ?thesis
      by (simp add: takeWhile_tail takeWhile_eq_all_conv) blast
  qed
  then have m: "length (takeWhile (\<lambda>c. c \<noteq> LF) (body @ post)) = length body" by simp
  from assms(3) obtain m' where m': "length body = Suc m'" by (cases body) auto
  let ?st2 = "MState (Some (last seps)) (body @ post) []"
  have body_run: "rmatch True (plus (Cls True [CChr LF])) ?st2 =
      advance ?st2 (length body) # map (advance ?st2) (rev [Suc 0 ..< length body])"
    unfolding rmatch_line_body m by (simp add: m')
  have rest3: "rest (advance ?st2 (length body)) = post" and caps3: "caps (advance ?st2 (length body)) = []"
    by (simp_all add: advance_def)
  have grp: "\<exists>st sts. rmatch True (Grp 1 (plus (Cls True [CChr LF]))) ?st2 = st # sts \<and> caps st = [(1, body)]"
    unfolding rmatch.simps(9) body_run
    by (simp add: rest3 caps3 consumed_def set_cap_def)
  then obtain st sts where g: "rmatch True (Grp 1 (plus (Cls True [CChr LF]))) ?st2 = st # sts"
    "caps st = [(1, body)]" by blast
  have "rmatch True titleTail ?st =
      concat (map (rmatch True (Grp 1 (plus (Cls True [CChr LF]))))
        (advance ?st (length seps) # map (advance ?st) (rev [Suc 0 ..< length seps])))"
    unfolding titleTail_def seqs.simps rmatch.simps(7) seps_run ..
  with g st2 show ?thesis by simp
qed

lemma titleRe_parts: "titleRe = Seq (Alt Bol (Chr LF)) (Seq titleKw titleTail)"
  by (simp add: titleRe_def titleKw_def titleTail_def)

lemma title_line_needs_keyword:
  assumes "rmatch True (Seq titleKw titleTail) (MState p s cs) \<noteq> []"
  shows "keyword_line s"
proof -
  from assms obtain st1 where st1: "st1 \<in> set (rmatch True titleKw (MState p s cs))"
    and ne: "rmatch True titleTail st1 \<noteq> []"
    by (auto simp: rmatch_basic)
  from titleKw_member[OF st1] obtain w where w: "w \<in> set title_keywords" "ci_prefix True w s"
    "st1 = advance (MState p s cs) (length w)"
    by auto
  from w(3) obtain p' where "st1 = MState p' (drop (length w) s) cs"
    by (simp add: advance_def)
  with ne titleTail_needs_sep[of p' "drop (length w) s" cs]
  have "drop (length w) s \<noteq> [] \<and> is_sep (hd (drop (length w) s))" by simp
  then have "case drop (length w) s of [] \<Rightarrow> False | c # _ \<Rightarrow> is_sep c"
    by (cases "drop (length w) s") simp_all
  with w(1,2) show ?thesis
    unfolding keyword_line_def list_ex_iff by blast
qed

lemma rmatch_titleRe:
  "rmatch True titleRe (MState p s []) =
     (if p = None then rmatch True (Seq titleKw titleTail) (MState p s []) else []) @
     (case s of [] \<Rightarrow> []
      | c # r \<Rightarrow> if c = LF then rmatch True (Seq titleKw titleTail) (MState (Some c) r []) else [])"
proof -
  have "\<not> is_upper LF" "\<not> is_lower LF"
    by (simp_all add: LF_def is_upper_def is_lower_def)
  then have lf: "canonicalize True c = canonicalize True LF \<longleftrightarrow> c = LF" for c
    by (rule canonicalize_nonletter)
  have start: "rmatch True (Alt Bol (Chr LF)) (MState p s []) =
      (if p = None then [MState p s []] else []) @
      (case s of [] \<Rightarrow> [] | c # r \<Rightarrow> if c = LF then [MState (Some c) r []] else [])"
    by (cases s) (simp_all add: rmatch.simps(2,4,8) lf)
  have "rmatch True titleRe (MState p s []) =
      concat (map (rmatch True (Seq titleKw titleTail)) (rmatch True (Alt Bol (Chr LF)) (MState p s [])))"
    unfolding titleRe_parts by (rule rmatch.simps(7))
  then show ?thesis
    unfolding start by (cases s; cases "p = None"; cases "hd s = LF") simp_all
qed

lemma title_match_needs_line:
  assumes "k \<le> length text" and "rmatch True titleRe (state_at [] text k) \<noteq> []"
  shows "title_line_at text k \<or> title_line_at text (Suc k)"
proof -
  let ?line = "\<lambda>p s. rmatch True (Seq titleKw titleTail) (MState p s [])"
  from assms have "(prev_at text k = None \<and> ?line (prev_at text k) (drop k text) \<noteq> []) \<or>
      (\<exists>c r. drop k text = c # r \<and> c = LF \<and> ?line (Some c) r \<noteq> [])"
    by (auto simp: state_at_Nil rmatch_titleRe split: list.splits if_splits)
  then show ?thesis
  proof
    assume a: "prev_at text k = None \<and> ?line (prev_at text k) (drop k text) \<noteq> []"
    then have k0: "k = 0" by (simp add: prev_at_def split: if_splits)
    from a have "keyword_line (drop k text)" by (blast dest: title_line_needs_keyword)
    with k0 have "title_line_at text k" by (simp add: title_line_at_def)
    then show ?thesis ..
  next
    assume "\<exists>c r. drop k text = c # r \<and> c = LF \<and> ?line (Some c) r \<noteq> []"
    then obtain r where r: "drop k text = LF # r" "?line (Some LF) r \<noteq> []" by blast
    from r(1) have kl: "k < length text"
      by (metis assms(1) drop_eq_Nil le_neq_implies_less list.distinct(1) order_refl)
    from r(1) kl have "text ! k = LF" "drop (Suc k) text = r"
      by (metis nth_via_drop, metis drop_Suc tl_drop list.sel(3))
    with r(2) title_line_needs_keyword[of "Some LF" r "[]"] kl
    show ?thesis by (simp add: title_line_at_def)
  qed
qed

lemma keywords_prefix_free:
  "\<forall>w\<in>set title_keywords. \<forall>w'\<in>set title_keywords.
     w \<noteq> w' \<longrightarrow> take (length w) (map (canonicalize True) w') \<noteq> map (canonicalize True) w"
  by (simp add: title_keywords_def js_def canonicalize_def ascii_upper_def is_lower_def)

lemma keyword_unique:
  assumes "w \<in> set title_keywords" and "w' \<in> set title_keywords"
    and "ci_prefix True w s" and "ci_prefix True w' s"
  shows "w = w'"
proof (rule ccontr)
  assume ne: "w \<noteq> w'"
  show False
  proof (cases "length w \<le> length w'")
    case True
    with assms ne keywords_prefix_free ci_prefix_comparable[OF assms(3,4)] show False by blast
  next
    case False
    then have "length w' \<le> length w" by simp
    with assms ne keywords_prefix_free ci_prefix_comparable[OF assms(4,3)] show False by metis
  qed
qed

lemma title_line_head:
  assumes "is_title_keyword kw"
    and "seps \<noteq> []" and "list_all is_sep seps"
    and "body \<noteq> []" and "\<not> is_sep (hd body)" and "LF \<notin> set body"
    and "post = [] \<or> hd post = LF"
  shows "\<exists>st sts. rmatch True (Seq titleKw titleTail) (MState p (kw @ seps @ body @ post) []) = st # sts
           \<and> caps st = [(1, body)]"
proof -
  let ?s = "kw @ seps @ body @ post"
  let ?st = "MState p ?s []"
  from assms(1) obtain w0 where w0: "w0 \<in> set title_keywords"
    "map (canonicalize True) kw = map (canonicalize True) w0"
    by (auto simp: is_title_keyword_def list_ex_iff)
  from w0(2) have lw: "length w0 = length kw" by (metis length_map)
  with w0(2) have pre: "ci_prefix True w0 ?s" by (simp add: ci_prefix_def)
  have d: "distinct title_keywords" by (simp add: title_keywords_def js_def)
  have "rmatch True titleKw ?st = [advance ?st (length w0)]"
    unfolding rmatch_titleKw
    using concat_single[OF d w0(1), of "\<lambda>w. ci_prefix True w (rest ?st)" "\<lambda>w. [advance ?st (length w)]"]
      pre keyword_unique[OF _ w0(1) _ pre]
    by auto
  moreover obtain p' where "advance ?st (length w0) = MState p' (seps @ body @ post) []"
    by (simp add: advance_def lw)
  ultimately have "rmatch True (Seq titleKw titleTail) ?st
      = rmatch True titleTail (MState p' (seps @ body @ post) [])"
    by (simp add: rmatch_basic)
  with titleTail_head[OF assms(2-7), of p'] show ?thesis by simp
qed

lemma title_step_first_line:
  assumes shape: "text = pre @ kw @ seps @ body @ post"
    and pre: "pre = [] \<or> last pre = LF"
    and first: "\<forall>k<length pre. \<not> title_line_at text k"
    and kw: "is_title_keyword kw"
    and seps: "seps \<noteq> []" "list_all is_sep seps"
    and body: "body \<noteq> []" "\<not> is_sep (hd body)" "LF \<notin> set body"
    and post: "post = [] \<or> hd post = LF"
  shows "title_step T text filename = Some (trim body)"
proof -
  let ?s0 = "kw @ seps @ body @ post"
  let ?line = "\<lambda>p s. rmatch True (Seq titleKw titleTail) (MState p s [])"
  define j0 where "j0 = length pre - 1"
  have head: "\<exists>st sts. ?line p ?s0 = st # sts \<and> caps st = [(1, body)]" for p
    by (rule title_line_head[OF kw seps body post])
  have j0_le: "j0 \<le> length text" by (simp add: j0_def shape)
  have at_j0: "\<exists>st sts. rmatch True titleRe (state_at [] text j0) = st # sts \<and> caps st = [(1, body)]"
  proof (cases "pre = []")
    case True
    then have "state_at [] text j0 = MState None ?s0 []"
      by (simp add: j0_def shape state_at_def last_char_def)
    moreover from head[of None] obtain st sts where "?line None ?s0 = st # sts" "caps st = [(1, body)]"
      by blast
    ultimately show ?thesis
      by (simp add: rmatch_titleRe)
  next
    case False
    with pre obtain pre' where pre': "pre = pre' @ [LF]"
      by (metis append_butlast_last_id)
    then have j0: "j0 = length pre'" by (simp add: j0_def)
    then have st: "state_at [] text j0 = MState (prev_at text j0) (LF # ?s0) []"
      using state_at_Nil[OF j0_le] by (simp add: shape pre')
    have no0: "prev_at text j0 = None \<Longrightarrow> ?line (prev_at text j0) (LF # ?s0) = []"
    proof (rule ccontr)
      assume p: "prev_at text j0 = None" and ne: "?line (prev_at text j0) (LF # ?s0) \<noteq> []"
      from p have "j0 = 0" by (simp add: prev_at_def split: if_splits)
      with j0 pre' have t: "text = LF # ?s0" by (simp add: shape)
      from ne have "keyword_line (LF # ?s0)" by (rule title_line_needs_keyword)
      with t have "title_line_at text 0" by (simp add: title_line_at_def)
      moreover have "0 < length pre" by (simp add: pre')
      ultimately show False using first by blast
    qed
    from head[of "Some LF"] obtain st' sts where "?line (Some LF) ?s0 = st' # sts" "caps st' = [(1, body)]"
      by blast
    then have l: "\<exists>st sts. ?line (Some LF) ?s0 = st # sts \<and> caps st = [(1, body)]" by blast
    show ?thesis
    proof (cases "prev_at text j0 = None")
      case True
      with no0 have "?line None (LF # ?s0) = []" by simp
      with True l show ?thesis unfolding st rmatch_titleRe by simp
    next
      case False
      then obtain y where "prev_at text j0 = Some y" by blast
      with l show ?thesis unfolding st rmatch_titleRe by simp
    qed
  qed
  then obtain st sts where st: "rmatch True titleRe (state_at [] text j0) = st # sts"
    "caps st = [(1, body)]" by blast
  have before: "\<forall>j<j0. rmatch True titleRe (state_at [] text j) = []"
  proof (intro allI impI, rule ccontr)
    fix j assume j: "j < j0" and ne: "rmatch True titleRe (state_at [] text j) \<noteq> []"
    from j j0_le have "j \<le> length text" by simp
    from title_match_needs_line[OF this ne]
    have "title_line_at text j \<or> title_line_at text (Suc j)" .
    moreover from j have "j < length pre" "Suc j < length pre" by (simp_all add: j0_def)
    ultimately show False using first by blast
  qed
  from exec_first_match[OF j0_le st(1) before] st(2)
  obtain m where "exec True titleRe text = Some m" "groups m = [(1, body)]" by auto
  then show ?thesis by (simp add: title_step_def group_def)
qed

lemma no_title_line_no_match:
  assumes "\<forall>k. \<not> title_line_at text k"
  shows "exec True titleRe text = None"
proof -
  have "rmatch True titleRe (state_at [] text k) = []" if "k \<le> length text" for k
    using title_match_needs_line[OF that] assms by blast
  then show ?thesis by (simp add: exec_def exec_from_None_iff)
qed

lemma title_step_filename:
  "exec True titleRe text = None \<Longrightarrow> title_step T text filename = Some (spec_title T filename)"
  by (simp add: title_step_def title_of_filename_spec)

text \<open>
  C5.  When no line of the text is a title line, \<open>legislationTitle\<close> in the result of
  either copy is the title derived from the filename: the extension stripped, hyphens and
  underscores replaced by spaces, a space put at every change from a lower-case to an
  upper-case letter, and every word given an upper-case first letter and lower-case
  letters after it.  For the filename \<open>community-empowermentAct.txt\<close> it is
  \<open>Community Empowerment Act\<close>, for \<open>my-FILE.txt\<close> it is \<open>My File\<close>.
\<close>
theorem title_from_filename:
  assumes "\<forall>k. \<not> title_line_at text k"
  shows "(\<forall>r \<in> {extractFallback T text (Some filename), extractLegislationFallback T text (Some filename)}.
           field r ''legislationTitle'' = Some (spec_title T filename)) \<and>
         field (extractFallback T text (Some (js ''community-empowermentAct.txt''))) ''legislationTitle''
           = Some (js ''Community Empowerment Act'') \<and>
         field (extractFallback T text (Some (js ''my-FILE.txt''))) ''legislationTitle''
           = Some (js ''My File'')"
  using title_step_filename[OF no_title_line_no_match[OF assms]]
  by (simp add: field_client field_title community_title my_file_title)

lemma no_lf_no_title_line:
  assumes "LF \<notin> set text" and "\<not> keyword_line text"
  shows "\<forall>k. \<not> title_line_at text k"
proof (intro allI notI)
  fix k assume t: "title_line_at text k"
  show False
  proof (cases k)
    case 0
    with t assms(2) show False by (simp add: title_line_at_def)
  next
    case (Suc j)
    with t have "j < length text" "text ! j = LF" by (simp_all add: title_line_at_def)
    with assms(1) show False by (metis nth_mem)
  qed
qed

lemma lorem_no_title_line: "\<forall>k. \<not> title_line_at (js ''Lorem ipsum'') k"
  by (rule no_lf_no_title_line)
     (simp_all add: js_def LF_def keyword_line_def title_keywords_def ci_prefix_def
       canonicalize_def ascii_upper_def is_lower_def)

text \<open>
  The text \<open>Lorem ipsum\<close> has no title line; with it the filename
  \<open>dataProtectionACT__2018.final.pdf\<close> gives \<open>Data Protection Act  2018.final\<close>.
\<close>
theorem title_from_filename_witness:
  "\<not> title_line_at (js ''Lorem ipsum'') 0 \<and>
   field (extractFallback ascii_casing (js ''Lorem ipsum'') (Some (js ''community-empowermentAct.txt'')))
     ''legislationTitle'' = Some (js ''Community Empowerment Act'') \<and>
   field (extractFallback ascii_casing (js ''Lorem ipsum'') (Some (js ''my-FILE.txt'')))
     ''legislationTitle'' = Some (js ''My File'') \<and>
   field (extractLegislationFallback ascii_casing (js ''Lorem ipsum'')
            (Some (js ''dataProtectionACT__2018.final.pdf'')))
     ''legislationTitle'' = Some (js ''Data Protection Act  2018.final'')"
proof -
  have "spec_title ascii_casing (js ''dataProtectionACT__2018.final.pdf'')
      = js ''Data Protection Act  2018.final''"
    by (simp add: spec_title_defs)
  with title_from_filename[OF lorem_no_title_line, of ascii_casing "js ''dataProtectionACT__2018.final.pdf''"]
    lorem_no_title_line
  show ?thesis by simp
qed

text \<open>
  C6 (as amended).  Let the first title line of the text consist of a keyword (AN ACT,
  A ACT, AN BILL, A BILL, AN LAW, A LAW or TITLE, in any letter case), then one or more
  colons or white-space code units, then further code units up to the end of the line,
  the first of which is neither a colon nor white space.  Then \<open>legislationTitle\<close> in
  the result of either copy is that last part of the line, trimmed, whatever the
  filename is.
\<close>
theorem title_from_first_title_line:
  assumes "text = pre @ kw @ seps @ body @ post"
    and "pre = [] \<or> last pre = LF"
    and "\<forall>k<length pre. \<not> title_line_at text k"
    and "is_title_keyword kw"
    and "seps \<noteq> []" and "list_all is_sep seps"
    and "body \<noteq> []" and "\<not> is_sep (hd body)" and "LF \<notin> set body"
    and "post = [] \<or> hd post = LF"
  shows "\<forall>r \<in> {extractFallback T text (Some filename), extractLegislationFallback T text (Some filename)}.
           field r ''legislationTitle'' = Some (strip body)"
  using title_step_first_line[OF assms, of T filename]
  by (simp add: field_client field_title trim_strip)

text \<open>
  A text whose second line is \<open>AN ACT: The Data Protection Act\<close> and whose first line is
  no title line.
\<close>
theorem title_from_first_title_line_witness:
  "field (extractFallback ascii_casing act_example (Some (js ''a.txt''))) ''legislationTitle''
     = Some (js ''The Data Protection Act'')"
proof -
  let ?pre = "js ''Preamble'' @ [LF]" and ?kw = "js ''AN ACT''" and ?seps = "js '': ''"
    and ?body = "js ''The Data Protection Act''" and ?post = "[LF] @ js ''Section 1''"
  have shape: "act_example = ?pre @ ?kw @ ?seps @ ?body @ ?post"
    by (simp add: act_example_def js_def)
  have pre: "?pre = [] \<or> last ?pre = LF" by simp
  have "\<not> keyword_line act_example"
    by (simp add: act_example_def js_def LF_def keyword_line_def title_keywords_def ci_prefix_def
        canonicalize_def ascii_upper_def is_lower_def)
  moreover have "LF \<notin> set (js ''Preamble'')"
    by (simp add: js_def LF_def)
  ultimately have first: "\<forall>k<length ?pre. \<not> title_line_at act_example k"
  proof (intro allI impI notI)
    fix k assume nk: "\<not> keyword_line act_example" and nl: "LF \<notin> set (js ''Preamble'')"
      and k: "k < length ?pre" and t: "title_line_at act_example k"
    show False
    proof (cases k)
      case 0
      with t nk show False by (simp add: title_line_at_def)
    next
      case (Suc j)
      with k have j: "j < length (js ''Preamble'')" by simp
      then have "act_example ! j = js ''Preamble'' ! j"
        by (simp add: act_example_def nth_append)
      with j nl have "act_example ! j \<noteq> LF" by (metis nth_mem)
      with Suc t show False by (simp add: title_line_at_def)
    qed
  qed
  have kw: "is_title_keyword ?kw"
    by (simp add: is_title_keyword_def title_keywords_def)
  have seps: "?seps \<noteq> []" "list_all is_sep ?seps"
    by (simp_all add: js_def is_sep_def is_space_def ch_def)
  have body: "?body \<noteq> []" "\<not> is_sep (hd ?body)" "LF \<notin> set ?body"
    by (simp_all add: js_def is_sep_def is_space_def ch_def LF_def)
  have post: "?post = [] \<or> hd ?post = LF" by simp
  have "strip ?body = ?body" by (simp add: strip_def js_def is_space_def)
  with title_from_first_title_line[OF shape pre first kw seps body post, of ascii_casing "js ''a.txt''"]
  show ?thesis by simp
qed

lemma title_next_line_value: "title_step T title_next_line filename = Some (js ''Foo'')"
  by (simp add: title_next_line_def eval_defs step_defs)

text \<open>
  C6 as stated fails: the text \<open>TITLE:\<close>, line feed, \<open>Foo\<close> begins with a title line whose
  remainder after the keyword is a single colon, and the title is \<open>Foo\<close>, taken from the
  next line.
\<close>
theorem title_taken_from_next_line:
  "title_line_at title_next_line 0 \<and> take 7 title_next_line = js ''TITLE:'' @ [LF] \<and>
   field (extractFallback ascii_casing title_next_line (Some (js ''a.txt''))) ''legislationTitle''
     = Some (js ''Foo'')"
proof -
  have "title_line_at title_next_line 0"
    by (simp add: title_line_at_def keyword_line_def title_keywords_def title_next_line_def
        ci_prefix_def js_def canonicalize_def ascii_upper_def is_lower_def is_sep_def ch_def)
  moreover have "take 7 title_next_line = js ''TITLE:'' @ [LF]"
    by (simp add: title_next_line_def js_def)
  ultimately show ?thesis
    by (simp add: field_title title_next_line_value)
qed

section \<open>The agencies\<close>

lemma rmatch_agency_tail:
  "rmatch True (Rep (Cls True [CChr (ch CHR '',''), CChr LF]) 0 (Some 50) True) (advance st n) =
     map (advance (advance st n)) (rev [0 ..< Suc (tail_len (drop n (rest st)))])"
proof -
  obtain p s cs where st: "advance st n = MState p s cs" by (cases "advance st n")
  then have s: "s = drop n (rest st)" by (simp add: advance_def)
  show ?thesis
    unfolding st
    using rep_cls_greedy[where mx = "Some 50" and mn = 0 and ic = True and neg = True
        and items = "[CChr (ch CHR '',''), CChr LF]" and p = p and s = s and cs = cs]
    by (simp add: not_comma_lf tail_len_def s del: upt_Suc)
qed

lemma agency_alts:
  "alts [lit ''minister'', lit ''ministry'', lit ''department'', lit ''agency'',
         lit ''authority'', lit ''commission'', lit ''board'', lit ''office'']
   = alts (map (\<lambda>w. seqs (map Chr w)) agency_keywords)"
  by (simp add: lit_def agency_keywords_def)

lemma rmatch_agencyRe:
  "rmatch True agencyRe st = concat (map (phrase_states st) agency_keywords)"
proof -
  obtain p s cs where st: "st = MState p s cs" by (cases st)
  have ne: "agency_keywords \<noteq> []" "\<forall>w\<in>set agency_keywords. w \<noteq> []"
    by (simp_all add: agency_keywords_def js_def)
  have alt: "rmatch True (alts (map (\<lambda>w. seqs (map Chr w)) agency_keywords)) (MState p s cs)
      = concat (map (\<lambda>w. if ci_prefix True w s then [advance (MState p s cs) (length w)] else [])
            agency_keywords)"
    by (rule rmatch_alts_chars[OF ne])
  have "rmatch True agencyRe st
      = concat (map (rmatch True (Rep (Cls True [CChr (ch CHR '',''), CChr LF]) 0 (Some 50) True))
          (concat (map (\<lambda>w. if ci_prefix True w (rest st) then [advance st (length w)] else [])
            agency_keywords)))"
    unfolding agencyRe_def agency_alts st rmatch_seqs_Cons alt
    by (simp add: concat_map_Eps)
  also have "concat (map (rmatch True (Rep (Cls True [CChr (ch CHR '',''), CChr LF]) 0 (Some 50) True))
          (concat (map (\<lambda>w. if ci_prefix True w (rest st) then [advance st (length w)] else []) ws)))
      = concat (map (phrase_states st) ws)" for ws
    by (induction ws) (simp_all add: phrase_states_def rmatch_agency_tail del: upt_Suc)
  finally show ?thesis .
qed

lemma phrase_states_Nil: "\<not> ci_prefix True w (rest st) \<Longrightarrow> phrase_states st w = []"
  by (simp add: phrase_states_def)

lemma phrase_states_hd:
  "ci_prefix True w (rest st) \<Longrightarrow>
   \<exists>sts. phrase_states st w =
     advance (advance st (length w)) (tail_len (drop (length w) (rest st))) # sts"
  by (simp add: phrase_states_def)

lemma agency_no_keyword:
  assumes "find (\<lambda>w. ci_prefix True w (rest st)) ws = None"
  shows "concat (map (phrase_states st) ws) = []"
  using assms by (induction ws) (auto simp: phrase_states_Nil split: if_splits)

lemma agency_first_keyword:
  assumes "find (\<lambda>w. ci_prefix True w (rest st)) ws = Some w"
  shows "\<exists>sts. concat (map (phrase_states st) ws) =
     advance (advance st (length w)) (tail_len (drop (length w) (rest st))) # sts"
  using assms
proof (induction ws)
  case Nil
  then show ?case by simp
next
  case (Cons v ws)
  show ?case
  proof (cases "ci_prefix True v (rest st)")
    case True
    with Cons.prems have "v = w" by simp
    with True phrase_states_hd[of w st] show ?thesis by auto
  next
    case False
    with Cons show ?thesis by (simp add: phrase_states_Nil)
  qed
qed

lemma tail_len_le: "tail_len s \<le> length s"
  unfolding tail_len_def
  by (rule le_trans[OF min.cobounded2 length_takeWhile_le])

lemma phrase_len_bounds:
  assumes "phrase_len s = Some n"
  shows "0 < n" and "n \<le> length s"
proof -
  from assms obtain w where w: "find (\<lambda>w. ci_prefix True w s) agency_keywords = Some w"
    and n: "n = length w + tail_len (drop (length w) s)"
    by (auto simp: phrase_len_def split: option.splits)
  from w have "w \<in> set agency_keywords" and "ci_prefix True w s"
    by (auto simp: find_Some_iff)
  then have "0 < length w" and lw: "length w \<le> length s"
    by (auto simp: agency_keywords_def js_def ci_prefix_def)
  with n show "0 < n" by simp
  from tail_len_le[of "drop (length w) s"] lw n show "n \<le> length s" by simp
qed

lemma match_all_agencies: "match_all_from True agencyRe p s = agency_phrases s"
proof (induction s arbitrary: p rule: agency_phrases.induct)
  case (1 s)
  let ?st = "MState p s []"
  show ?case
  proof (cases "phrase_len s")
    case None
    then have "find (\<lambda>w. ci_prefix True w (rest ?st)) agency_keywords = None"
      by (simp add: phrase_len_def split: option.splits)
    then have nil: "rmatch True agencyRe ?st = []"
      by (simp only: rmatch_agencyRe agency_no_keyword)
    show ?thesis
    proof (cases s)
      case Nil
      with None nil show ?thesis
        by (simp add: match_all_from.simps[of True agencyRe p "[]"] agency_phrases.simps[of "[]"])
    next
      case (Cons c cs)
      with None nil "1.IH"(1)[OF None Cons, of "Some c"] show ?thesis
        by (simp add: match_all_from.simps[of True agencyRe p "c # cs"]
            agency_phrases.simps[of "c # cs"])
    qed
  next
    case (Some n)
    then obtain w where w: "find (\<lambda>w. ci_prefix True w (rest ?st)) agency_keywords = Some w"
      and n: "n = length w + tail_len (drop (length w) s)"
      by (auto simp: phrase_len_def split: option.splits)
    from agency_first_keyword[OF w] obtain sts where
      "rmatch True agencyRe ?st = advance (advance ?st (length w)) (tail_len (drop (length w) s)) # sts"
      by (auto simp: rmatch_agencyRe)
    moreover define st' where "st' = advance (advance ?st (length w)) (tail_len (drop (length w) s))"
    ultimately have hd: "rmatch True agencyRe ?st = st' # sts" by simp
    have rest': "rest st' = drop n s"
      by (simp add: st'_def advance_def n add.commute)
    from phrase_len_bounds[OF Some] have nb: "0 < n" "n \<le> length s" .
    then have len: "length s - length (rest st') = n" by (simp add: rest')
    from "1.IH"(2)[OF Some, of "prev st'"]
    have "match_all_from True agencyRe (prev st') (rest st') = agency_phrases (drop n s)"
      by (simp add: rest')
    with hd len nb Some show ?thesis
      by (simp add: match_all_from.simps[of True agencyRe p s] agency_phrases.simps[of s]
          consumed_def)
  qed
qed

lemma set_first_seen: "set (first_seen xs) = set xs"
  by (induction xs) auto

lemma filter_first_seen: "filter P (first_seen xs) = first_seen (filter P xs)"
proof (induction xs)
  case Nil
  show ?case by simp
next
  case (Cons x xs)
  have comm: "filter P (filter (\<lambda>y. y \<noteq> x) (first_seen xs))
      = filter (\<lambda>y. y \<noteq> x) (first_seen (filter P xs))"
  proof -
    have "filter P (filter (\<lambda>y. y \<noteq> x) (first_seen xs))
        = filter (\<lambda>y. y \<noteq> x) (filter P (first_seen xs))"
      by (simp add: conj_commute)
    with Cons show ?thesis by (simp only:)
  qed
  show ?case
  proof (cases "P x")
    case True
    with comm show ?thesis by simp
  next
    case False
    then have "x \<notin> set (first_seen (filter P xs))" by (simp add: set_first_seen)
    then have "filter (\<lambda>y. y \<noteq> x) (first_seen (filter P xs)) = first_seen (filter P xs)"
      by (simp add: filter_id_conv) blast
    with False comm show ?thesis by simp
  qed
qed

lemma set_insert_first_seen:
  "set_insert seen xs = seen @ first_seen (filter (\<lambda>x. x \<notin> set seen) xs)"
proof (induction xs arbitrary: seen)
  case Nil
  show ?case by simp
next
  case (Cons x xs)
  show ?case
  proof (cases "x \<in> set seen")
    case True
    with Cons show ?thesis by simp
  next
    case False
    have "filter (\<lambda>y. y \<notin> set (seen @ [x])) xs = filter (\<lambda>y. y \<noteq> x) (filter (\<lambda>y. y \<notin> set seen) xs)"
      by (auto intro: filter_cong)
    with False Cons[of "seen @ [x]"] show ?thesis
      by (simp add: filter_first_seen)
  qed
qed

lemma new_Set_first_seen: "new_Set xs = first_seen xs"
  by (simp add: new_Set_def set_insert_first_seen)

lemma distinct_first_seen: "distinct (first_seen xs)"
  by (induction xs) (auto simp: set_first_seen)

lemma first_seen_Nil_iff: "first_seen xs = [] \<longleftrightarrow> xs = []"
  by (cases xs) simp_all

lemma keyword_prefix_letter:
  assumes "w \<in> set agency_keywords" and "ci_prefix True w ph"
  shows "ph \<noteq> [] \<and> \<not> is_space (hd ph)"
proof -
  from assms(1) have w: "w \<noteq> []" "is_lower (hd w)"
    by (auto simp: agency_keywords_def js_def is_lower_def)
  with assms(2) have ne: "ph \<noteq> []" by (auto simp: ci_prefix_def)
  from assms(2) w(1) ne have "canonicalize True (hd ph) = canonicalize True (hd w)"
    by (cases ph; cases w) (auto simp: ci_prefix_def)
  with w(2) have "is_lower (hd ph) \<or> is_upper (hd ph)" by (auto dest: canonical_letter[rotated])
  with ne show ?thesis using space_not_letter[of "hd ph"] by blast
qed

lemma phrase_starts_with_keyword:
  "ph \<in> set (agency_phrases s) \<Longrightarrow> \<exists>w\<in>set agency_keywords. ci_prefix True w ph"
proof (induction s rule: agency_phrases.induct)
  case (1 s)
  show ?case
  proof (cases "phrase_len s")
    case None
    show ?thesis
    proof (cases s)
      case Nil
      with None "1.prems" show ?thesis by (simp add: agency_phrases.simps[of "[]"])
    next
      case (Cons c cs)
      with None "1.prems" have "ph \<in> set (agency_phrases cs)"
        by (simp add: agency_phrases.simps[of "c # cs"])
      with "1.IH"(1)[OF None Cons] show ?thesis .
    qed
  next
    case (Some n)
    then obtain w where w: "find (\<lambda>w. ci_prefix True w s) agency_keywords = Some w"
      and n: "n = length w + tail_len (drop (length w) s)"
      by (auto simp: phrase_len_def split: option.splits)
    from w have wk: "w \<in> set agency_keywords" "ci_prefix True w s" by (auto simp: find_Some_iff)
    from "1.prems" Some consider "ph = take n s" | "ph \<in> set (agency_phrases (drop n s))"
      by (auto simp: agency_phrases.simps[of s])
    then show ?thesis
    proof cases
      case 1
      with wk n ci_prefix_take[of True w s n] show ?thesis by auto
    next
      case 2
      with "1.IH"(2)[OF Some] show ?thesis .
    qed
  qed
qed

lemma join_nonempty: "ws \<noteq> [] \<Longrightarrow> hd ws \<noteq> [] \<Longrightarrow> join sep ws \<noteq> []"
  by (cases ws; cases "tl ws") auto

lemma hd_first_seen: "xs \<noteq> [] \<Longrightarrow> hd (first_seen xs) = hd xs"
  by (cases xs) simp_all

lemma agencies_step_phrases:
  "agencies_step text = join (js '', '') (take 5 (first_seen (map trim (agency_phrases text))))"
  by (simp add: agencies_step_def match_all_def match_all_agencies new_Set_first_seen
      split: list.splits)

lemma map_trim_strip: "map trim xs = map strip xs"
  by (simp add: trim_strip)

lemma agencies_step_entries:
  "agencies_step text = join (js '', '') (take 5 (agency_entries text))"
  by (simp add: agencies_step_phrases agency_entries_def map_trim_strip)

lemma agencies_step_nonempty:
  assumes "agency_phrases text \<noteq> []"
  shows "agencies_step text \<noteq> []"
proof -
  let ?ps = "map trim (agency_phrases text)"
  from assms obtain ph phs where ph: "agency_phrases text = ph # phs" by (cases "agency_phrases text") auto
  then have "ph \<in> set (agency_phrases text)" by simp
  then obtain w where "w \<in> set agency_keywords" "ci_prefix True w ph"
    by (blast dest: phrase_starts_with_keyword)
  then have "trim ph \<noteq> []" using keyword_prefix_letter trim_nonempty by blast
  with ph have "take 5 (first_seen ?ps) \<noteq> [] \<and> hd (take 5 (first_seen ?ps)) \<noteq> []"
    by simp
  then show ?thesis
    unfolding agencies_step_phrases by (intro join_nonempty) simp_all
qed

lemma field_agencies_entries:
  "field (extractFallback T text (Some filename)) ''implementingAgencies'' =
     Some (if agency_phrases text = [] then js ''Relevant government ministries and agencies''
           else join (js '', '') (take 5 (agency_entries text)))"
proof (cases "agency_phrases text = []")
  case True
  then show ?thesis
    by (simp add: field_agencies agencies_step_entries agency_entries_def or_else_def
        default_agencies_def)
next
  case False
  with agencies_step_nonempty[OF False] show ?thesis
    by (simp add: field_agencies or_else_def agencies_step_entries)
qed

lemma agencies_example_value:
  "agencies_step agencies_example =
     js ''Ministry of Health, Department of Energy, Board, Office of Audit, Authority''"
  by (simp add: agencies_example_def eval_defs step_defs)

lemma spaced_agencies_value:
  "agencies_step spaced_agencies = js ''Board, Office of Audit, Board of Trade''"
  by (simp add: spaced_agencies_def eval_defs step_defs)

text \<open>
  C7.  For every text the value computed for \<open>implementingAgencies\<close> is the agency
  phrases of the text (each a keyword in any letter case with up to 50 following code
  units other than comma and line feed), trimmed, without repetitions and in order of
  first appearance, cut to five entries and joined with a comma and a space; the
  returned property is that value, or the default phrase when there is no agency phrase.
  There are never more than five entries and no entry occurs twice.  A text that names
  the Ministry of Health three times among five other agency phrases yields five entries;
  phrases that differ only in the white space around them yield one entry.
\<close>
theorem agencies_from_keyword_phrases:
  "(\<forall>r \<in> {extractFallback T text (Some filename), extractLegislationFallback T text (Some filename)}.
      field r ''implementingAgencies'' =
        Some (if agency_phrases text = [] then js ''Relevant government ministries and agencies''
              else join (js '', '') (take 5 (agency_entries text)))) \<and>
   agencies_step text = join (js '', '') (take 5 (agency_entries text)) \<and>
   length (take 5 (agency_entries text)) \<le> 5 \<and>
   distinct (take 5 (agency_entries text)) \<and>
   field (extractFallback T agencies_example (Some filename)) ''implementingAgencies'' =
     Some (js ''Ministry of Health, Department of Energy, Board, Office of Audit, Authority'') \<and>
   field (extractFallback T spaced_agencies (Some filename)) ''implementingAgencies'' =
     Some (js ''Board, Office of Audit, Board of Trade'')"
proof -
  have "js ''Ministry of Health, Department of Energy, Board, Office of Audit, Authority'' \<noteq> []"
    "js ''Board, Office of Audit, Board of Trade'' \<noteq> []"
    by (simp_all add: js_def)
  then have "field (extractFallback T agencies_example (Some filename)) ''implementingAgencies'' =
     Some (js ''Ministry of Health, Department of Energy, Board, Office of Audit, Authority'')"
    "field (extractFallback T spaced_agencies (Some filename)) ''implementingAgencies'' =
     Some (js ''Board, Office of Audit, Board of Trade'')"
    by (simp_all add: field_agencies agencies_example_value spaced_agencies_value or_else_def)
  moreover have "distinct (take 5 (agency_entries text))"
    by (simp add: agency_entries_def distinct_first_seen distinct_take)
  ultimately show ?thesis
    by (simp add: field_client field_agencies_entries agencies_step_entries)
qed

lemma board_aboard_phrases:
  "agency_phrases (js ''the board ,aboard'') = [js ''board '', js ''board'']"
  by (simp add: agency_phrases.simps phrase_len_def agency_keywords_def ci_prefix_def
      tail_len_def js_def ch_def LF_def canonicalize_def ascii_upper_def is_lower_def)

text \<open>
  The text \<open>the board ,aboard\<close> has two agency phrases, the first with a space at its
  end; trimmed they are the same, and the one entry is \<open>board\<close>.
\<close>
theorem agencies_from_keyword_phrases_witness:
  "agency_phrases (js ''the board ,aboard'') = [js ''board '', js ''board''] \<and>
   field (extractFallback ascii_casing (js ''the board ,aboard'') (Some (js ''a.txt'')))
     ''implementingAgencies'' = Some (js ''board'')"
proof -
  have "agency_entries (js ''the board ,aboard'') = [js ''board'']"
    unfolding agency_entries_def board_aboard_phrases
    by (simp add: strip_def js_def is_space_def)
  then show ?thesis
    using agencies_from_keyword_phrases[of ascii_casing "js ''the board ,aboard''" "js ''a.txt''"]
      board_aboard_phrases
    by simp
qed

lemma two_spellings_value:
  "agencies_step two_spellings = js ''Ministry of Health, MINISTRY OF HEALTH''"
  by (simp add: two_spellings_def eval_defs step_defs)

lemma six_agencies_value:
  "agencies_step six_agencies = js ''Ministry of Health, MINISTRY OF HEALTH, Board A, Office B, Agency C''"
  by (simp add: six_agencies_def eval_defs step_defs)

lemma two_spellings_phrases:
  "agency_phrases two_spellings = [js ''Ministry of Health'', js ''MINISTRY OF HEALTH'']"
  by (simp add: two_spellings_def agency_phrases.simps phrase_len_def agency_keywords_def
      ci_prefix_def tail_len_def js_def ch_def LF_def canonicalize_def ascii_upper_def
      is_lower_def)

text \<open>
  C10.  Entries are compared code unit by code unit.  Whenever two trimmed agency
  phrases of a text differ, be it only in the case of their letters, both are entries,
  at two places of the list of entries, whose length is the number of different strings
  among the trimmed phrases; \<open>implementingAgencies\<close> in the result of either copy is the
  first five entries of that list, so that both count for the limit of five.
\<close>
theorem agency_dedup_is_case_sensitive:
  assumes "p \<in> set (map strip (agency_phrases text))"
    and "q \<in> set (map strip (agency_phrases text))"
    and "p \<noteq> q"
  shows "(\<forall>r \<in> {extractFallback T text (Some filename), extractLegislationFallback T text (Some filename)}.
            field r ''implementingAgencies'' = Some (join (js '', '') (take 5 (agency_entries text)))) \<and>
         (\<exists>i j. i < length (agency_entries text) \<and> j < length (agency_entries text) \<and> i \<noteq> j \<and>
                agency_entries text ! i = p \<and> agency_entries text ! j = q) \<and>
         distinct (agency_entries text) \<and>
         length (agency_entries text) = card (set (map strip (agency_phrases text)))"
proof -
  let ?es = "agency_entries text"
  have s: "set ?es = set (map strip (agency_phrases text))"
    by (simp add: agency_entries_def set_first_seen)
  have d: "distinct ?es" by (simp add: agency_entries_def distinct_first_seen)
  from assms(1,2) s obtain i j where ij: "i < length ?es" "?es ! i = p" "j < length ?es" "?es ! j = q"
    by (metis in_set_conv_nth)
  with assms(3) have "i \<noteq> j" by auto
  moreover from assms(1) have "agency_phrases text \<noteq> []" by auto
  moreover from d s have "length ?es = card (set (map strip (agency_phrases text)))"
    by (metis distinct_card)
  ultimately show ?thesis
    using ij d by (auto simp: field_client field_agencies_entries)
qed

text \<open>
  The text \<open>two_spellings\<close> has the phrase \<open>Ministry of Health\<close> in two spellings, found by
  the same keyword: they are two entries.  Of the six phrases of \<open>six_agencies\<close>, which
  begin with the two spellings, the sixth is dropped.
\<close>
theorem agency_dedup_witness:
  "map (canonicalize True) (js ''Ministry of Health'') = map (canonicalize True) (js ''MINISTRY OF HEALTH'') \<and>
   agency_entries two_spellings = [js ''Ministry of Health'', js ''MINISTRY OF HEALTH''] \<and>
   field (extractFallback ascii_casing two_spellings (Some (js ''a.txt''))) ''implementingAgencies'' =
     Some (js ''Ministry of Health, MINISTRY OF HEALTH'') \<and>
   field (extractFallback ascii_casing six_agencies (Some (js ''a.txt''))) ''implementingAgencies'' =
     Some (js ''Ministry of Health, MINISTRY OF HEALTH, Board A, Office B, Agency C'')"
proof -
  have e: "agency_entries two_spellings = [js ''Ministry of Health'', js ''MINISTRY OF HEALTH'']"
    by (simp add: agency_entries_def two_spellings_phrases strip_def js_def is_space_def)
  have c: "map (canonicalize True) (js ''Ministry of Health'') = map (canonicalize True) (js ''MINISTRY OF HEALTH'')"
    by (simp add: js_def canonicalize_def ascii_upper_def is_lower_def)
  have ne: "js ''Ministry of Health'' \<noteq> js ''MINISTRY OF HEALTH''"
    by (simp add: js_def)
  have six: "field (extractFallback ascii_casing six_agencies (Some (js ''a.txt''))) ''implementingAgencies'' =
     Some (js ''Ministry of Health, MINISTRY OF HEALTH, Board A, Office B, Agency C'')"
    by (simp add: field_agencies six_agencies_value or_else_def js_def)
  have m: "js ''Ministry of Health'' \<in> set (map strip (agency_phrases two_spellings))"
    "js ''MINISTRY OF HEALTH'' \<in> set (map strip (agency_phrases two_spellings))"
    by (simp_all add: two_spellings_phrases strip_def js_def is_space_def)
  have j: "join (js '', '') (take 5 [js ''Ministry of Health'', js ''MINISTRY OF HEALTH''])
      = js ''Ministry of Health, MINISTRY OF HEALTH''"
    by (simp add: js_def)
  from agency_dedup_is_case_sensitive[OF m ne, of ascii_casing "js ''a.txt''"]
  have "field (extractFallback ascii_casing two_spellings (Some (js ''a.txt''))) ''implementingAgencies''
      = Some (join (js '', '') (take 5 (agency_entries two_spellings)))"
    by blast
  then have "field (extractFallback ascii_casing two_spellings (Some (js ''a.txt''))) ''implementingAgencies''
      = Some (js ''Ministry of Health, MINISTRY OF HEALTH'')"
    unfolding e j .
  with e c six show ?thesis by blast
qed

section \<open>The defaults\<close>

lemma rmatch_paraRe:
  "rmatch False paraRe (MState p s cs) =
     (case s of a # b # r \<Rightarrow> if a = LF \<and> b = LF then [MState (Some b) r cs] else [] | _ \<Rightarrow> [])"
proof -
  consider "s = []" | a where "s = [a]" | a b r where "s = a # b # r"
    by (metis list.exhaust)
  then show ?thesis
    by cases (auto simp: paraRe_def rmatch_basic canonicalize_def)
qed

lemma split_from_paraRe_hd:
  "\<exists>ps. split_from False paraRe p cur s = (rev cur @ up_to_blank_line s) # ps"
proof (induction s arbitrary: p cur)
  case Nil
  show ?case by (simp add: split_from.simps)
next
  case (Cons c cs)
  show ?case
  proof (cases "\<exists>r. cs = LF # r \<and> c = LF")
    case True
    then obtain r where r: "cs = LF # r" "c = LF" by blast
    then have "split_from False paraRe p cur (c # cs)
        = rev cur # split_from False paraRe (Some LF) [] r"
      by (simp add: split_from.simps(2)[of False paraRe p cur LF "LF # r"] rmatch_paraRe)
    with r show ?thesis by simp
  next
    case False
    then have nomatch: "rmatch False paraRe (MState p (c # cs) []) = []"
      by (cases cs) (auto simp: rmatch_paraRe)
    from False have "up_to_blank_line (c # cs) = c # up_to_blank_line cs"
      by (cases cs) auto
    with nomatch Cons[of "Some c" "c # cur"] show ?thesis
      by (simp add: split_from.simps(2)[of False paraRe p cur c cs])
  qed
qed

lemma first_segment: "at0 (split_re False paraRe s) = Some (up_to_blank_line s)"
proof (cases s)
  case Nil
  then show ?thesis by (simp add: split_re_def rmatch_paraRe at0_def)
next
  case (Cons c cs)
  with split_from_paraRe_hd[of None "[]" s] show ?thesis
    by (auto simp: split_re_def at0_def)
qed

lemma rmatch_spacesRe:
  "rmatch False spacesRe (MState p s cs) =
     map (advance (MState p s cs)) (rev [Suc 0 ..< Suc (length (takeWhile is_space s))])"
  unfolding spacesRe_def plus_def
  using rep_cls_greedy[where mx = None and mn = 1 and ic = False and neg = False
      and items = "[CSpace]" and p = p and s = s and cs = cs]
  by (simp add: space_class del: upt_Suc)

lemma replace_all_spacesRe:
  "replace_all_from False spacesRe [RLit (js '' '')] p s = squeeze s"
proof (induction s arbitrary: p rule: length_induct)
  case (1 s)
  have sp: "js '' '' = [ch CHR '' '']" by (simp add: js_def ch_def)
  show ?case
  proof (cases s)
    case Nil
    then show ?thesis
      by (simp add: replace_all_from.simps[of _ _ _ p "[]"] rmatch_spacesRe)
  next
    case (Cons c cs)
    show ?thesis
    proof (cases "is_space c")
      case False
      with Cons have "rmatch False spacesRe (MState p s []) = []"
        by (simp add: rmatch_spacesRe)
      moreover from "1.IH" Cons have "replace_all_from False spacesRe [RLit (js '' '')] (Some c) cs = squeeze cs"
        by simp
      ultimately show ?thesis
        using False Cons by (simp add: replace_all_from.simps[of _ _ _ p "c # cs"])
    next
      case True
      define n where "n = length (takeWhile is_space cs)"
      have run: "length (takeWhile is_space s) = Suc n" using True Cons by (simp add: n_def)
      have "rmatch False spacesRe (MState p s []) =
          advance (MState p s []) (Suc n) # map (advance (MState p s [])) (rev [Suc 0 ..< Suc n])"
        unfolding rmatch_spacesRe run by simp
      moreover have rest': "rest (advance (MState p s []) (Suc n)) = dropWhile is_space cs"
        using Cons by (simp add: advance_def n_def dropWhile_eq_drop)
      moreover have "length (dropWhile is_space cs) < length s"
        using Cons by (simp add: le_imp_less_Suc length_dropWhile_le)
      moreover from this "1.IH"
      have "replace_all_from False spacesRe [RLit (js '' '')]
            (prev (advance (MState p s []) (Suc n))) (dropWhile is_space cs)
          = squeeze (dropWhile is_space cs)"
        by simp
      ultimately show ?thesis
        using True Cons
        by (simp add: replace_all_from.simps[of _ _ _ p "c # cs"] sp)
    qed
  qed
qed

lemma first_paragraph_spec: "first_paragraph text = Some (spec_first_paragraph text)"
  by (simp add: first_paragraph_def spec_first_paragraph_def first_segment collapse_spaces_def
      replace_all_def replace_all_spacesRe substring0_def trim_strip)

text \<open>
  C8.  For every text in which the summary pattern, the objectives pattern and the
  agency pattern all find nothing, \<open>legislationSummary\<close> in the result of either copy is
  the first paragraph (the part of the first 500 code units before the first empty
  line, with white space collapsed, trimmed) or, when that is empty, the default
  sentence, and so never empty; \<open>primaryObjectives\<close> is the placeholder of two bulleted
  lines; and \<open>implementingAgencies\<close> is the default phrase.
\<close>
theorem defaults_when_nothing_matches:
  assumes "exec True summaryRe text = None" and "exec True objectivesRe text = None"
    and "match_all True agencyRe text = None"
  shows "\<forall>r \<in> {extractFallback T text (Some filename), extractLegislationFallback T text (Some filename)}.
     field r ''legislationSummary'' =
       Some (if spec_first_paragraph text = []
             then js ''This legislation establishes a framework for governance in its designated policy area.''
             else spec_first_paragraph text) \<and>
     field r ''legislationSummary'' \<noteq> Some [] \<and>
     field r ''primaryObjectives'' =
       Some (BULLET # js '' To be extracted from the document'' @
             LF # BULLET # js '' Review the full text for specific objectives'') \<and>
     field r ''implementingAgencies'' = Some (js ''Relevant government ministries and agencies'')"
proof -
  from assms(1) have s: "summary_step text = Some (spec_first_paragraph text)"
    by (simp add: summary_step_def first_paragraph_spec)
  have d: "default_summary \<noteq> []" by (simp add: default_summary_def js_def)
  from assms(2) have o: "objectives_step text = Some []" by (simp add: objectives_step_def)
  from assms(3) have a: "agencies_step text = []" by (simp add: agencies_step_def)
  from s d o a show ?thesis
    by (simp add: field_client field_summary field_objectives field_agencies or_else_def
        default_summary_def default_objectives_def default_agencies_def)
qed

lemma lorem_no_match:
  "exec True summaryRe (js ''Lorem ipsum dolor sit amet'') = None"
  "exec True objectivesRe (js ''Lorem ipsum dolor sit amet'') = None"
  "match_all True agencyRe (js ''Lorem ipsum dolor sit amet'') = None"
  by (simp_all add: eval_defs step_defs)

lemma lorem_first_paragraph:
  "spec_first_paragraph (js ''Lorem ipsum dolor sit amet'') = js ''Lorem ipsum dolor sit amet''"
  by (simp add: spec_first_paragraph_def strip_def js_def ch_def is_space_def LF_def)

text \<open>The text \<open>Lorem ipsum dolor sit amet\<close> matches none of the three patterns.\<close>
theorem defaults_when_nothing_matches_witness:
  "exec True summaryRe (js ''Lorem ipsum dolor sit amet'') = None \<and>
   exec True objectivesRe (js ''Lorem ipsum dolor sit amet'') = None \<and>
   match_all True agencyRe (js ''Lorem ipsum dolor sit amet'') = None \<and>
   field (extractFallback ascii_casing (js ''Lorem ipsum dolor sit amet'') (Some (js ''a.txt'')))
     ''legislationSummary'' = Some (js ''Lorem ipsum dolor sit amet'') \<and>
   field (extractFallback ascii_casing (js ''Lorem ipsum dolor sit amet'') (Some (js ''a.txt'')))
     ''implementingAgencies'' = Some (js ''Relevant government ministries and agencies'')"
proof -
  have "js ''Lorem ipsum dolor sit amet'' \<noteq> []" by (simp add: js_def)
  with defaults_when_nothing_matches[OF lorem_no_match, of ascii_casing "js ''a.txt''"]
    lorem_no_match lorem_first_paragraph
  show ?thesis by simp
qed

end
